theory Spec2Isabelle
  imports Main "HOL-Library.Word"
begin

unbundle bit_operations_syntax

section \<open>Data model\<close>

text \<open>
  The two programs of the repository, \<^verbatim>\<open>bmp2ega.c\<close> (the encoder) and \<^verbatim>\<open>ega2bmp.c\<close>
  (the decoder), work on byte buffers (\<^verbatim>\<open>uint8_t *\<close>) through cursors and pointers.
  A buffer is a list of 8-bit words, a cursor or pointer into it is an index.  None of
  the buffer accesses of the C code is checked; where the program would read or write
  outside a buffer (undefined behaviour in C) the model stops with a \<open>fault\<close>.  A fault
  is not an error the program reports: neither \<^verbatim>\<open>main\<close> has a failure exit that depends
  on the pixel data or on the token stream.  Sizes and indices are natural numbers or
  integers without a bound: the C code computes \<^verbatim>\<open>width * height\<close> in \<^verbatim>\<open>int\<close>, and the model
  says nothing about images of \<open>2^31\<close> pixels or more.
\<close>

type_synonym u8 = "8 word"
type_synonym u16 = "16 word"

datatype fault = Read_Overrun | Write_Overrun

section \<open>The run finder (\<^verbatim>\<open>find_run\<close>, bmp2ega.c)\<close>

text \<open>
  \<^verbatim>\<open>int find_run(uint8_t *buf, uint8_t len, int *rpos)\<close>.  The pointer \<open>buf\<close> is the list of
  the bytes from the pointer onwards, \<^verbatim>\<open>*buf++\<close> takes its head.  The result is the pair
  of the returned run length and the value stored to \<^verbatim>\<open>*rpos\<close>.  The counters
  \<open>lp\<close>, \<open>count\<close> and \<open>pos\<close> are C \<^verbatim>\<open>int\<close>s that stay below 256 here.
\<close>

fun find_run_loop :: "u8 list \<Rightarrow> nat \<Rightarrow> u8 \<Rightarrow> nat \<Rightarrow> nat \<Rightarrow> nat \<Rightarrow> fault + (nat \<times> nat)" where
  "find_run_loop [] len lc lp count pos =
     (if pos < len then Inl Read_Overrun
      else if 3 > count then Inr (0, pos)
      else Inr (count, lp))"
| "find_run_loop (cc # buf) len lc lp count pos =
     (if pos < len then
        (if lc \<noteq> cc then
           (if 3 \<le> count then Inr (count, lp)
            else find_run_loop buf len cc pos 1 (pos + 1))
         else find_run_loop buf len lc lp (count + 1) (pos + 1))
      else if 3 > count then Inr (0, pos)
      else Inr (count, lp))"

definition find_run :: "u8 list \<Rightarrow> u8 \<Rightarrow> fault + (nat \<times> nat)" where
  "find_run buf len =
     (case buf of
        [] \<Rightarrow> Inl Read_Overrun
      | lc # buf' \<Rightarrow> find_run_loop buf' (unat len) lc 0 1 1)"

lemma find_run_loop_progress:
  "find_run_loop buf len lc lp count pos = Inr (rl, rp) \<Longrightarrow> 0 < pos \<Longrightarrow> 0 < rl + rp"
  by (induction buf len lc lp count pos rule: find_run_loop.induct)
     (auto split: if_splits)

lemma find_run_progress: "find_run buf len = Inr (rl, rp) \<Longrightarrow> 0 < rl + rp"
  by (auto simp: find_run_def split: list.splits dest: find_run_loop_progress)

section \<open>The encoder (\<^verbatim>\<open>main\<close>, bmp2ega.c)\<close>

subsection \<open>Header\<close>

text \<open>
  The header is stored through an \<^verbatim>\<open>int16_t *\<close> laid over the first four bytes of the
  output buffer: two 16-bit values in the byte order of the host, which is little-endian
  on the machines the format comes from and the model's choice.  \<^verbatim>\<open>width\<close> and
  \<^verbatim>\<open>height\<close> are \<^verbatim>\<open>uint16_t\<close>; the conversion of \<^verbatim>\<open>width - 1\<close> to 16 bits keeps the low
  16 bits, which is subtraction on \<open>16 word\<close>.
\<close>

definition put_int16 :: "u16 \<Rightarrow> u8 list" where
  "put_int16 v = [ucast v, ucast (drop_bit 8 v)]"

definition get_int16 :: "u8 \<Rightarrow> u8 \<Rightarrow> u16" where
  "get_int16 lo hi = ucast lo OR push_bit 8 (ucast hi)"

definition write_header :: "u16 \<Rightarrow> u16 \<Rightarrow> u8 list" where
  "write_header width height = put_int16 (width - 1) @ put_int16 (height - 1)"

subsection \<open>Packing the pixels, in place\<close>

text \<open>
  \<^verbatim>\<open>for(size_t i = 0; i < img.len; i+=2) { px = *sp++; px <<= 4; px |= ((*sp++) & 0x0f); *dp++ = px; }\<close>
  with \<open>sp\<close> and \<open>dp\<close> both starting at the beginning of \<^verbatim>\<open>img.data\<close>: the packed
  bytes overwrite the front of the buffer they are read from.
\<close>

function pack_loop :: "u8 list \<Rightarrow> nat \<Rightarrow> nat \<Rightarrow> nat \<Rightarrow> nat \<Rightarrow> fault + u8 list" where
  "pack_loop data len i sp dp =
     (if i < len then
        (if sp + 1 < length data then
           (if dp < length data then
              pack_loop (data[dp := push_bit 4 (data ! sp) OR (data ! (sp + 1) AND 0x0f)])
                len (i + 2) (sp + 2) (dp + 1)
            else Inl Write_Overrun)
         else Inl Read_Overrun)
      else Inr data)"
  by pat_completeness auto
termination
  by (relation "measure (\<lambda>(data, len, i, sp, dp). len - i)") auto

declare pack_loop.simps [simp del]

subsection \<open>Emitting tokens\<close>

text \<open>The inner copy loop \<^verbatim>\<open>for(i < n) dst.data[dst.pos++] = *src++;\<close>.  The output buffer
  is the list of the bytes written so far, \<^verbatim>\<open>dst.pos\<close> its length.\<close>

fun copy_bytes :: "u8 list \<Rightarrow> nat \<Rightarrow> nat \<Rightarrow> u8 list \<Rightarrow> fault + (nat \<times> u8 list)" where
  "copy_bytes data src 0 dst = Inr (src, dst)"
| "copy_bytes data src (Suc n) dst =
     (if src < length data then copy_bytes data (Suc src) n (dst @ [data ! src])
      else Inl Read_Overrun)"

text \<open>Lines 132 to 143: the literal bytes before the run, \<open>clen\<close> a C \<^verbatim>\<open>int\<close>.\<close>

function emit_copy :: "u8 list \<Rightarrow> nat \<Rightarrow> int \<Rightarrow> u8 list \<Rightarrow> fault + (nat \<times> u8 list)" where
  "emit_copy data src clen dst =
     (if clen > 128 then
        (case copy_bytes data src 128 (dst @ [127]) of
           Inl e \<Rightarrow> Inl e
         | Inr (src', dst') \<Rightarrow> emit_copy data src' (clen - 128) dst')
      else copy_bytes data src (nat clen) (dst @ [word_of_int (clen - 1)]))"
  by pat_completeness auto
termination
  by (relation "measure (\<lambda>(data, src, clen, dst). nat clen)") auto

declare emit_copy.simps [simp del]

text \<open>Lines 147 to 154: the run, \<open>v\<close> the byte \<^verbatim>\<open>*src\<close> and \<open>rlen\<close> a C \<^verbatim>\<open>int\<close>.  The
  control bytes are computed as \<^verbatim>\<open>int\<close>s and stored into a \<^verbatim>\<open>uint8_t\<close>.\<close>

function emit_run :: "u8 \<Rightarrow> int \<Rightarrow> u8 list \<Rightarrow> u8 list" where
  "emit_run v rlen dst =
     (if rlen > 130 then emit_run v (rlen - 130) (dst @ [word_of_int (127 + 0x80), v])
      else dst @ [word_of_int ((rlen - 3) + 0x80), v])"
  by pat_completeness auto
termination
  by (relation "measure (\<lambda>(v, rlen, dst). nat rlen)") auto

declare emit_run.simps [simp del]

subsection \<open>One scanline, all scanlines\<close>

text \<open>
  The loop \<^verbatim>\<open>for(int x = 0; x < width;)\<close> of lines 127 to 158, \<open>width\<close> the packed width.
  \<^verbatim>\<open>width - x\<close> is an \<^verbatim>\<open>int\<close> passed for the \<^verbatim>\<open>uint8_t\<close> parameter of \<^verbatim>\<open>find_run\<close>.
\<close>

function encode_line :: "u8 list \<Rightarrow> nat \<Rightarrow> nat \<Rightarrow> nat \<Rightarrow> u8 list \<Rightarrow> fault + (nat \<times> u8 list)" where
  "encode_line data width x src dst =
     (if x < width then
        (case find_run (drop src data) (word_of_nat (width - x)) of
           Inl e \<Rightarrow> Inl e
         | Inr (len, rpos) \<Rightarrow>
             (case (if rpos \<noteq> 0 then emit_copy data src (int rpos) dst else Inr (src, dst)) of
                Inl e \<Rightarrow> Inl e
              | Inr (src1, dst1) \<Rightarrow>
                  (if len \<noteq> 0 then
                     (if src1 < length data then
                        encode_line data width (x + rpos + len) (src1 + len)
                          (emit_run (data ! src1) (int len) dst1)
                      else Inl Read_Overrun)
                   else encode_line data width (x + rpos) src1 dst1)))
      else Inr (src, dst))"
  by pat_completeness auto
termination
  by (relation "measure (\<lambda>(data, width, x, src, dst). width - x)")
     (auto dest: find_run_progress)

declare encode_line.simps [simp del]

text \<open>
  The loop over the scanlines, lines 126 to 160, from the last line of the buffer to the
  first: \<^verbatim>\<open>src -= (2 * width)\<close> steps from the end of one line to the start of the line
  before it, and leaves the buffer after the last one.
\<close>

function encode_rows :: "u8 list \<Rightarrow> nat \<Rightarrow> nat \<Rightarrow> nat \<Rightarrow> int \<Rightarrow> u8 list \<Rightarrow> fault + u8 list" where
  "encode_rows data width height y src dst =
     (if y < height then
        (case (if src < 0 then (if 0 < width then Inl Read_Overrun else Inr (0, dst))
               else encode_line data width 0 (nat src) dst) of
           Inl e \<Rightarrow> Inl e
         | Inr (src', dst') \<Rightarrow>
             encode_rows data width height (y + 1)
               ((if src < 0 then src else int src') - 2 * int width) dst')
      else Inr dst)"
  by pat_completeness auto
termination
  by (relation "measure (\<lambda>(data, width, height, y, src, dst). height - y)") auto

declare encode_rows.simps [simp del]

text \<open>
  The program from the loaded image to the bytes of the output file.  \<open>img\<close> is the buffer
  \<^verbatim>\<open>load_bmp\<close> returns, one byte for each pixel and \<^verbatim>\<open>width * height\<close> bytes long.  The
  output buffer is allocated with \<^verbatim>\<open>width * height\<close> bytes and written at
  \<^verbatim>\<open>dst.pos++\<close> only, so that a write falls outside it exactly when the final length
  exceeds that size.
\<close>

definition bmp2ega :: "u8 list \<Rightarrow> u16 \<Rightarrow> u16 \<Rightarrow> fault + u8 list" where
  "bmp2ega img width height =
     (case pack_loop img (length img) 0 0 0 of
        Inl e \<Rightarrow> Inl e
      | Inr data \<Rightarrow>
          (let w = unat (width div 2) in
           case encode_rows data w (unat height) 0 ((int (unat height) - 1) * int w)
                  (write_header width height) of
             Inl e \<Rightarrow> Inl e
           | Inr out \<Rightarrow>
               if length out \<le> unat width * unat height then Inr out else Inl Write_Overrun))"

section \<open>The decoder (\<^verbatim>\<open>main\<close>, ega2bmp.c)\<close>

text \<open>
  The decoder's variables: the read cursor \<^verbatim>\<open>src.pos\<close> into the bytes of the file
  (\<open>d_pos\<close>), the image buffer \<^verbatim>\<open>img.data\<close> (\<open>d_img\<close>, one byte for each pixel), the write
  pointer \<^verbatim>\<open>dst\<close> into it (\<open>d_dst\<close>, an index, which leaves the buffer below its start
  after the last scanline), and the pixel column \<^verbatim>\<open>x\<close> (\<open>d_x\<close>).
\<close>

record dec =
  d_pos :: nat
  d_img :: "u8 list"
  d_dst :: int
  d_x :: nat

text \<open>\<^verbatim>\<open>*dst++ = v\<close>\<close>

definition put_pixel :: "dec \<Rightarrow> u8 \<Rightarrow> fault + dec" where
  "put_pixel s v =
     (if 0 \<le> d_dst s \<and> d_dst s < int (length (d_img s))
      then Inr (s\<lparr>d_img := (d_img s)[nat (d_dst s) := v], d_dst := d_dst s + 1\<rparr>)
      else Inl Write_Overrun)"

text \<open>\<^verbatim>\<open>*dst++ = (tv >> 4) & 0x0f; *dst++ = tv & 0x0f; x += 2;\<close>\<close>

definition put_pair :: "dec \<Rightarrow> u8 \<Rightarrow> fault + dec" where
  "put_pair s tv =
     (case put_pixel s (drop_bit 4 tv AND 0x0f) of
        Inl e \<Rightarrow> Inl e
      | Inr s1 \<Rightarrow>
          (case put_pixel s1 (tv AND 0x0f) of
             Inl e \<Rightarrow> Inl e
           | Inr s2 \<Rightarrow> Inr (s2\<lparr>d_x := d_x s2 + 2\<rparr>)))"

text \<open>The loop of a repeat token, lines 143 to 147: \<open>tc\<close> times the same byte \<open>tv\<close>.\<close>

fun run_loop :: "u8 \<Rightarrow> nat \<Rightarrow> dec \<Rightarrow> fault + dec" where
  "run_loop tv 0 s = Inr s"
| "run_loop tv (Suc n) s =
     (case put_pair s tv of Inl e \<Rightarrow> Inl e | Inr s' \<Rightarrow> run_loop tv n s')"

text \<open>The loop of a literal token, lines 151 to 157: each round reads
  \<^verbatim>\<open>src.data[src.pos++]\<close>.\<close>

fun copy_loop :: "u8 list \<Rightarrow> nat \<Rightarrow> dec \<Rightarrow> fault + dec" where
  "copy_loop data 0 s = Inr s"
| "copy_loop data (Suc n) s =
     (if d_pos s < length data then
        (case put_pair (s\<lparr>d_pos := d_pos s + 1\<rparr>) (data ! d_pos s) of
           Inl e \<Rightarrow> Inl e
         | Inr s' \<Rightarrow> copy_loop data n s')
      else Inl Read_Overrun)"

text \<open>
  One round of \<^verbatim>\<open>while(src.pos < src.len)\<close>, lines 138 to 163.  \<open>tc\<close> is a
  \<^verbatim>\<open>uint8_t\<close>: \<^verbatim>\<open>(tc & 0x7f) + 3\<close> is at most 130 and \<^verbatim>\<open>tc + 1\<close>, taken when
  \<open>tc < 128\<close>, at most 128, so neither wraps.
\<close>

definition decode_token :: "u8 list \<Rightarrow> nat \<Rightarrow> dec \<Rightarrow> fault + dec" where
  "decode_token data width s =
     (if d_pos s < length data then
        (let tc = data ! d_pos s; s0 = s\<lparr>d_pos := d_pos s + 1\<rparr> in
         case (if tc \<ge> 128 then
                 (if d_pos s0 < length data
                  then run_loop (data ! d_pos s0) (unat ((tc AND 0x7f) + 3)) (s0\<lparr>d_pos := d_pos s0 + 1\<rparr>)
                  else Inl Read_Overrun)
               else copy_loop data (unat (tc + 1)) s0) of
           Inl e \<Rightarrow> Inl e
         | Inr s1 \<Rightarrow>
             Inr (if d_x s1 \<ge> width then s1\<lparr>d_x := 0, d_dst := d_dst s1 - 2 * int width\<rparr> else s1))
      else Inl Read_Overrun)"

lemma put_pixel_pos: "put_pixel s v = Inr s' \<Longrightarrow> d_pos s' = d_pos s"
  by (auto simp: put_pixel_def split: if_splits)

lemma put_pair_pos: "put_pair s tv = Inr s' \<Longrightarrow> d_pos s' = d_pos s"
  by (auto simp: put_pair_def split: sum.splits dest!: put_pixel_pos)

lemma run_loop_pos: "run_loop tv n s = Inr s' \<Longrightarrow> d_pos s' = d_pos s"
  by (induction n arbitrary: s) (auto split: sum.splits dest!: put_pair_pos)

lemma copy_loop_pos: "copy_loop data n s = Inr s' \<Longrightarrow> d_pos s \<le> d_pos s'"
  by (induction n arbitrary: s) (fastforce split: sum.splits if_splits dest!: put_pair_pos)+

lemma decode_token_pos: "decode_token data width s = Inr s' \<Longrightarrow> d_pos s < d_pos s'"
  by (auto simp: decode_token_def Let_def split: if_splits sum.splits
           dest!: run_loop_pos copy_loop_pos)

function decode_loop :: "u8 list \<Rightarrow> nat \<Rightarrow> dec \<Rightarrow> fault + dec" where
  "decode_loop data width s =
     (if d_pos s < length data then
        (case decode_token data width s of
           Inl e \<Rightarrow> Inl e
         | Inr s' \<Rightarrow> decode_loop data width s')
      else Inr s)"
  by pat_completeness auto
termination
  by (relation "measure (\<lambda>(data, width, s). length data - d_pos s)")
     (auto dest: decode_token_pos)

declare decode_loop.simps [simp del]

text \<open>
  The program from the bytes of the file to the decoded image: lines 113 to 164.  The
  header is read through an \<^verbatim>\<open>int16_t *\<close> laid over the first four bytes; \<^verbatim>\<open>width++\<close>
  and \<^verbatim>\<open>height++\<close> are on \<^verbatim>\<open>uint16_t\<close>.  The image buffer comes zeroed from
  \<^verbatim>\<open>calloc\<close>.  A file of no bytes never reaches this code (\<^verbatim>\<open>fread\<close> fails first).
\<close>

definition read_header :: "u8 list \<Rightarrow> u16 \<times> u16" where
  "read_header data =
     (get_int16 (data ! 0) (data ! 1) + 1, get_int16 (data ! 2) (data ! 3) + 1)"

definition ega2bmp :: "u8 list \<Rightarrow> fault + (u16 \<times> u16 \<times> u8 list)" where
  "ega2bmp data =
     (if length data < 4 then Inl Read_Overrun
      else
        (let (width, height) = read_header data;
             w = unat width; h = unat height
         in case decode_loop data w
                   \<lparr>d_pos = 4, d_img = replicate (w * h) 0, d_dst = (int h - 1) * int w, d_x = 0\<rparr> of
              Inl e \<Rightarrow> Inl e
            | Inr s \<Rightarrow> Inr (width, height, d_img s)))"

section \<open>Vocabulary of the properties\<close>

text \<open>
  \<open>run3_at buf i\<close>: three equal bytes start at offset \<open>i\<close>.  \<open>first_run_of buf n rl rp\<close>:
  within the first \<open>n\<close> bytes of \<open>buf\<close>, \<open>(rl, rp)\<close> is either the leftmost run of three
  or more equal bytes (it starts at \<open>rp\<close>, is \<open>rl\<close> long, stops at the first different byte
  or at offset \<open>n\<close>, and no three equal bytes start before it), or else no three equal
  bytes exist and \<open>(rl, rp) = (0, n)\<close>.
\<close>

definition run3_at :: "u8 list \<Rightarrow> nat \<Rightarrow> bool" where
  "run3_at buf i = (buf ! i = buf ! (i + 1) \<and> buf ! (i + 1) = buf ! (i + 2))"

definition first_run_of :: "u8 list \<Rightarrow> nat \<Rightarrow> nat \<Rightarrow> nat \<Rightarrow> bool" where
  "first_run_of B n rl rp =
     ((3 \<le> rl \<and> rp + rl \<le> n \<and> list_all (\<lambda>j. B ! j = B ! rp) [rp..<rp + rl]
        \<and> (rp + rl < n \<longrightarrow> B ! (rp + rl) \<noteq> B ! rp)
        \<and> list_all (\<lambda>i. \<not> run3_at B i) [0..<rp])
      \<or> (rl = 0 \<and> rp = n \<and> list_all (\<lambda>i. \<not> run3_at B i) [0..<n - 2]))"

text \<open>
  \<open>unpack bs\<close> are the pixels the decoder stores for the bytes \<open>bs\<close>, two for each byte
  (\<open>put_pair\<close>); \<open>pack_pairs\<close> is the list of bytes the packing loop computes, one for
  each two pixels.
\<close>

definition unpack :: "u8 list \<Rightarrow> u8 list" where
  "unpack bs = concat (map (\<lambda>tv. [drop_bit 4 tv AND 0x0f, tv AND 0x0f]) bs)"

fun pack_pairs :: "u8 list \<Rightarrow> u8 list" where
  "pack_pairs (l # r # ps) = (push_bit 4 l OR (r AND 0x0f)) # pack_pairs ps"
| "pack_pairs ps = []"

text \<open>
  The tokens of the format, as the README of the repository describes them: a literal
  token is a control byte below 128 that holds the number of bytes minus 1, followed by
  the bytes; a repeat token is a control byte with the high bit set that holds the run
  length minus 3 in its low seven bits, followed by the byte to repeat.  \<open>stream_of\<close> are
  the bytes of a list of tokens, \<open>span_of\<close> the bytes it stands for.  \<open>run_lens L\<close> are
  the lengths the encoder cuts a run of \<open>L\<close> bytes into, \<open>chunks128\<close> the pieces it cuts
  a literal span into.
\<close>

datatype token = Literal "u8 list" | Repeat nat u8

fun token_bytes :: "token \<Rightarrow> u8 list" where
  "token_bytes (Literal bs) = word_of_nat (length bs - 1) # bs"
| "token_bytes (Repeat n v) = [word_of_nat (n - 3) + 0x80, v]"

fun token_span :: "token \<Rightarrow> u8 list" where
  "token_span (Literal bs) = bs"
| "token_span (Repeat n v) = replicate n v"

fun token_ok :: "token \<Rightarrow> bool" where
  "token_ok (Literal bs) = (1 \<le> length bs \<and> length bs \<le> 128)"
| "token_ok (Repeat n v) = (3 \<le> n \<and> n \<le> 130)"

fun is_repeat :: "token \<Rightarrow> bool" where
  "is_repeat (Repeat n v) = True"
| "is_repeat (Literal bs) = False"

definition stream_of :: "token list \<Rightarrow> u8 list" where
  "stream_of ts = concat (map token_bytes ts)"

definition span_of :: "token list \<Rightarrow> u8 list" where
  "span_of ts = concat (map token_span ts)"

definition run_lens :: "nat \<Rightarrow> nat list" where
  "run_lens L = replicate ((L - 1) div 130) 130 @ [(L - 1) mod 130 + 1]"

function chunks128 :: "u8 list \<Rightarrow> u8 list list" where
  "chunks128 bs = (if length bs > 128 then take 128 bs # chunks128 (drop 128 bs) else [bs])"
  by pat_completeness auto
termination
  by (relation "measure length") auto

declare chunks128.simps [simp del]

text \<open>
  \<open>store_at buf i ps\<close> is the buffer \<open>buf\<close> with the bytes \<open>ps\<close> stored from index \<open>i\<close> on.
  \<open>fits s n\<close>: the pixels of \<open>n\<close> more bytes lie inside the image buffer at the write
  pointer.  \<open>emit width s k bs\<close> is the state of the decoder after one token that takes
  \<open>k\<close> bytes of the stream and stands for the bytes \<open>bs\<close>: the read cursor has moved by
  \<open>k\<close>, the pixels of \<open>bs\<close> are stored at the write pointer, and the column and the write
  pointer are advanced, or moved to the scanline before when the column has reached the
  width.
\<close>

definition store_at :: "u8 list \<Rightarrow> nat \<Rightarrow> u8 list \<Rightarrow> u8 list" where
  "store_at buf i ps = take i buf @ ps @ drop (i + length ps) buf"

definition emit :: "nat \<Rightarrow> dec \<Rightarrow> nat \<Rightarrow> u8 list \<Rightarrow> dec" where
  "emit width s k bs =
     s\<lparr>d_pos := d_pos s + k,
       d_img := store_at (d_img s) (nat (d_dst s)) (unpack bs),
       d_dst := (if d_x s + 2 * length bs \<ge> width
                then d_dst s + 2 * int (length bs) - 2 * int width
                else d_dst s + 2 * int (length bs)),
       d_x := (if d_x s + 2 * length bs \<ge> width then 0 else d_x s + 2 * length bs)\<rparr>"

definition fits :: "dec \<Rightarrow> nat \<Rightarrow> bool" where
  "fits s n = (0 \<le> d_dst s \<and> d_dst s + 2 * int n \<le> int (length (d_img s)))"

text \<open>
  An image of 262 by 3 pixels, the stream the encoder writes for it and the image the
  decoder returns for that stream.  The scanlines of \<open>ex_img\<close>, first to last in the
  buffer: 131 pixel pairs that pack to the bytes 1, 2, 1, 2, ..., 1; 262 pixels 0; 260
  pixels 0 followed by the pixels 0, 1.  The encoder writes the last scanline first.
\<close>

definition ex_img :: "u8 list" where
  "ex_img = (concat (replicate 65 [0, 1, 0, 2]) @ [0, 1]) @ replicate 262 0 @ (replicate 260 0 @ [0, 1])"

definition ex_stream :: "u8 list" where
  "ex_stream = [5, 1, 2, 0] @ [255, 0, 0, 1] @ [255, 0, 126, 0]
     @ [127] @ concat (replicate 64 [1, 2]) @ [2, 1, 2, 1]"

definition ex_out :: "u8 list" where
  "ex_out = replicate 252 0 @ [0, 1, 0, 2, 0, 2, 0, 2, 0, 1] @ replicate 262 0
     @ [7, 15] @ concat (replicate 62 [0, 1, 0, 2]) @ [0, 1] @ replicate 8 0 @ [0, 1]"

section \<open>Lemmas\<close>

lemma first_run_of_iff:
  "first_run_of B n rl rp =
     ((3 \<le> rl \<and> rp + rl \<le> n \<and> (\<forall>j. rp \<le> j \<and> j < rp + rl \<longrightarrow> B ! j = B ! rp)
        \<and> (rp + rl < n \<longrightarrow> B ! (rp + rl) \<noteq> B ! rp) \<and> (\<forall>i<rp. \<not> run3_at B i))
      \<or> (rl = 0 \<and> rp = n \<and> (\<forall>i. i + 2 < n \<longrightarrow> \<not> run3_at B i)))"
proof -
  have a: "(\<forall>i. i + 2 < n \<longrightarrow> \<not> run3_at B i) = (\<forall>i<n - 2. \<not> run3_at B i)"
    by (simp add: less_diff_conv)
  have b: "list_all (\<lambda>i. \<not> run3_at B i) [0..<n - 2] = (\<forall>i<n - 2. \<not> run3_at B i)"
    by (simp add: list_all_iff Ball_def)
  have c: "list_all (\<lambda>i. \<not> run3_at B i) [0..<rp] = (\<forall>i<rp. \<not> run3_at B i)"
    by (simp add: list_all_iff Ball_def)
  have d: "list_all (\<lambda>j. B ! j = B ! rp) [rp..<rp + rl]
             = (\<forall>j. rp \<le> j \<and> j < rp + rl \<longrightarrow> B ! j = B ! rp)"
    by (simp add: list_all_iff Ball_def)
  show ?thesis unfolding first_run_of_def a b c d ..
qed

lemma find_run_loop_inv:
  "n - pos = k \<Longrightarrow> pos \<le> n \<Longrightarrow> n \<le> length B \<Longrightarrow> lp + count = pos \<Longrightarrow> 1 \<le> count \<Longrightarrow>
   (\<forall>j. lp \<le> j \<and> j < pos \<longrightarrow> B ! j = lc) \<Longrightarrow> (\<forall>i<lp. \<not> run3_at B i) \<Longrightarrow>
   \<exists>rl rp. find_run_loop (drop pos B) n lc lp count pos = Inr (rl, rp) \<and> first_run_of B n rl rp"
proof (induction k arbitrary: pos lc lp count)
  case 0
  then have pn: "pos = n" by simp
  have fin: "find_run_loop (drop pos B) n lc lp count pos =
        (if 3 > count then Inr (0, pos) else Inr (count, lp))"
    using pn by (cases "drop pos B") simp_all
  show ?case
  proof (cases "3 > count")
    case True
    have "\<not> run3_at B i" if "i + 2 < n" for i
    proof (cases "i < lp")
      case True then show ?thesis using 0 by simp
    next
      case False
      then show ?thesis using that True 0 pn by simp
    qed
    then show ?thesis using fin True pn by (simp add: first_run_of_iff)
  next
    case False
    have "B ! lp = lc" using 0 False by simp
    then show ?thesis using fin False pn 0 by (auto simp: first_run_of_iff)
  qed
next
  case (Suc k)
  then have lt: "pos < n" "pos < length B" by simp_all
  then have dr: "drop pos B = B ! pos # drop (Suc pos) B"
    by (simp add: Cons_nth_drop_Suc)
  show ?case
  proof (cases "lc = B ! pos")
    case True
    have "\<exists>rl rp. find_run_loop (drop (Suc pos) B) n lc lp (Suc count) (Suc pos) = Inr (rl, rp) \<and> first_run_of B n rl rp"
      using Suc.prems True lt by (intro Suc.IH) (auto simp: less_Suc_eq)
    then show ?thesis using dr lt True by simp
  next
    case False
    show ?thesis
    proof (cases "3 \<le> count")
      case True
      have "B ! lp = lc" using Suc.prems True by simp
      then show ?thesis using dr lt False True Suc.prems
        by (auto simp: first_run_of_iff)
    next
      case c: False
      have nt: "\<forall>i<pos. \<not> run3_at B i"
      proof (intro allI impI)
        fix i assume ip: "i < pos"
        show "\<not> run3_at B i"
        proof (cases "i < lp")
          case True then show ?thesis using Suc.prems by simp
        next
          case il: False
          have a: "B ! (pos - 1) = lc" using Suc.prems by simp
          from il ip c Suc.prems have "i + 1 = pos \<or> i + 2 = pos" by arith
          then show ?thesis
          proof
            assume "i + 1 = pos"
            then show ?thesis using a False by (auto simp: run3_at_def)
          next
            assume e: "i + 2 = pos"
            then have "B ! (i + 1) = lc" using a by (metis add_diff_cancel_right' one_add_one add.assoc)
            then show ?thesis using e False by (auto simp: run3_at_def)
          qed
        qed
      qed
      have "\<exists>rl rp. find_run_loop (drop (Suc pos) B) n (B ! pos) pos 1 (Suc pos) = Inr (rl, rp) \<and> first_run_of B n rl rp"
        using Suc.prems lt nt by (intro Suc.IH) (auto simp: less_Suc_eq)
      then show ?thesis using dr lt False c by simp
    qed
  qed
qed

lemma find_run_loop_take:
  "find_run_loop (take (n - pos) buf) n lc lp c pos = find_run_loop buf n lc lp c pos"
proof (induction buf arbitrary: lc lp c pos)
  case Nil
  show ?case by simp
next
  case (Cons cc buf)
  show ?case
  proof (cases "pos < n")
    case True
    then have t: "take (n - pos) (cc # buf) = cc # take (n - Suc pos) buf"
      by (simp add: take_Cons')
    show ?thesis using True by (simp add: t Cons.IH)
  next
    case False
    then show ?thesis by simp
  qed
qed

lemma find_run_cong:
  assumes "buf \<noteq> []" "buf' \<noteq> []" "take (unat len) buf = take (unat len) buf'"
  shows "find_run buf len = find_run buf' len"
proof -
  obtain a t where b: "buf = a # t" using assms(1) by (cases buf) auto
  obtain a' t' where b': "buf' = a' # t'" using assms(2) by (cases buf') auto
  show ?thesis
  proof (cases "unat len")
    case 0
    have "find_run_loop t 0 a 0 1 1 = find_run_loop (take (0 - 1) t) 0 a 0 1 1"
      by (simp only: find_run_loop_take)
    moreover have "find_run_loop t' 0 a' 0 1 1 = find_run_loop (take (0 - 1) t') 0 a' 0 1 1"
      by (simp only: find_run_loop_take)
    ultimately show ?thesis using 0 by (simp add: find_run_def b b')
  next
    case (Suc m)
    with assms(3) have e: "a = a'" "take m t = take m t'" by (simp_all add: b b')
    have "find_run_loop t (Suc m) a 0 1 1 = find_run_loop (take (Suc m - 1) t) (Suc m) a 0 1 1"
      by (simp only: find_run_loop_take)
    moreover have "find_run_loop t' (Suc m) a 0 1 1 = find_run_loop (take (Suc m - 1) t') (Suc m) a 0 1 1"
      by (simp only: find_run_loop_take)
    ultimately show ?thesis using Suc e by (simp add: find_run_def b b')
  qed
qed

lemma unat_rem: "unat (word_of_nat r :: u8) = r mod 256"
  by (simp add: unat_of_nat)

lemma get_put_int16: "get_int16 (ucast v) (ucast (drop_bit 8 v)) = v"
  unfolding get_int16_def
  by (rule bit_word_eqI) (auto simp: bit_simps)

lemma unat_put_int16: "unat (ucast v :: u8) + 256 * unat (ucast (drop_bit 8 v) :: u8) = unat (v :: u16)"
proof -
  have a: "unat (ucast v :: u8) = unat v mod 256"
    by (simp add: unsigned_ucast_eq take_bit_eq_mod)
  have b: "unat (ucast (drop_bit 8 v) :: u8) = unat v div 256"
  proof -
    have "unat v < 65536" using unsigned_less [of v, where ?'a = nat] by simp
    then have "unat v div 256 < 256" by simp
    moreover have "unat (drop_bit 8 v) = unat v div 256"
      by (simp only: unat_drop_bit_eq) (simp add: drop_bit_eq_div)
    ultimately show ?thesis by (simp only: unsigned_ucast_eq take_bit_eq_mod) simp
  qed
  show ?thesis unfolding a b by simp
qed

lemma pack_pairs_append:
  "even (length ps) \<Longrightarrow> pack_pairs (ps @ qs) = pack_pairs ps @ pack_pairs qs"
  by (induction ps rule: pack_pairs.induct) auto

lemma length_pack_pairs: "length (pack_pairs ps) = length ps div 2"
  by (induction ps rule: pack_pairs.induct) auto

lemma unpack_pack_nibble:
  assumes "l < 16" "r < 16"
  shows "drop_bit 4 (push_bit 4 l OR (r AND 0x0f)) AND 0x0f = (l :: u8)"
    and "(push_bit 4 l OR (r AND 0x0f)) AND 0x0f = (r :: u8)"
proof -
  have m: "(0x0f :: u8) = mask 4" by (simp add: mask_eq_exp_minus_1)
  have l: "take_bit 4 l = l" using assms(1) less_mask_eq [of l 4] by (simp add: take_bit_eq_mask)
  have r: "take_bit 4 r = r" using assms(2) less_mask_eq [of r 4] by (simp add: take_bit_eq_mask)
  have bl: "bit l n \<Longrightarrow> n < 4" for n
    using l by (metis bit_take_bit_iff)
  have br: "bit r n \<Longrightarrow> n < 4" for n
    using r by (metis bit_take_bit_iff)
  show "drop_bit 4 (push_bit 4 l OR (r AND 0x0f)) AND 0x0f = l"
    unfolding m by (rule bit_word_eqI) (auto simp: bit_simps dest: bl br)
  show "(push_bit 4 l OR (r AND 0x0f)) AND 0x0f = r"
    unfolding m by (rule bit_word_eqI) (auto simp: bit_simps dest: bl br)
qed

lemma unpack_pack_pairs:
  "even (length ps) \<Longrightarrow> \<forall>p\<in>set ps. p < 16 \<Longrightarrow> unpack (pack_pairs ps) = ps"
  using unpack_pack_nibble
  by (induction ps rule: pack_pairs.induct) (auto simp: unpack_def)

lemma pack_pairs_take_Suc:
  assumes "2 * k + 1 < length ps"
  shows "pack_pairs (take (2 * k + 2) ps)
           = pack_pairs (take (2 * k) ps) @ [push_bit 4 (ps ! (2 * k)) OR (ps ! (2 * k + 1) AND 0x0f)]"
proof -
  have "take (2 * k + 2) ps = take (2 * k) ps @ [ps ! (2 * k), ps ! (2 * k + 1)]"
    using assms by (simp add: take_Suc_conv_app_nth)
  moreover have "even (length (take (2 * k) ps))" using assms by simp
  ultimately show ?thesis by (simp add: pack_pairs_append)
qed

lemma pack_loop_step:
  "i < len \<Longrightarrow> sp + 1 < length D \<Longrightarrow> dp < length D \<Longrightarrow>
   pack_loop D len i sp dp
     = pack_loop (D[dp := push_bit 4 (D ! sp) OR (D ! (sp + 1) AND 0x0f)]) len (i + 2) (sp + 2) (dp + 1)"
  by (subst pack_loop.simps) simp

lemma pack_loop_inv:
  "length ps div 2 - k = m \<Longrightarrow> even (length ps) \<Longrightarrow> 2 * k \<le> length ps \<Longrightarrow>
   pack_loop (pack_pairs (take (2 * k) ps) @ drop k ps) (length ps) (2 * k) (2 * k) k
     = Inr (pack_pairs ps @ drop (length ps div 2) ps)"
proof (induction m arbitrary: k)
  case 0
  then have e: "2 * k = length ps" by auto
  then have "length ps div 2 = k" by auto
  with e show ?case by (simp add: pack_loop.simps)
next
  case (Suc m)
  let ?D = "pack_pairs (take (2 * k) ps) @ drop k ps"
  let ?v = "push_bit 4 (ps ! (2 * k)) OR (ps ! (2 * k + 1) AND 0x0f)"
  from Suc.prems have lt: "2 * k + 1 < length ps" by auto
  have lp: "length (pack_pairs (take (2 * k) ps)) = k"
    using lt by (simp add: length_pack_pairs)
  have lD: "length ?D = length ps" using lt by (simp add: lp)
  have i0: "k + (2 * k - k) = 2 * k" and i1: "k + (2 * k + 1 - k) = 2 * k + 1" by simp_all
  have r0: "?D ! (2 * k) = ps ! (2 * k)"
    using lt by (simp only: nth_append lp nth_drop i0) simp
  have r1: "?D ! (2 * k + 1) = ps ! (2 * k + 1)"
    using lt by (simp only: nth_append lp nth_drop i1) simp
  have up: "?D[k := ?v] = pack_pairs (take (2 * (k + 1)) ps) @ drop (k + 1) ps"
  proof -
    have "?D[k := ?v] = pack_pairs (take (2 * k) ps) @ (drop k ps)[0 := ?v]"
      by (simp add: list_update_append lp)
    also have "(drop k ps)[0 := ?v] = ?v # drop (k + 1) ps"
    proof -
      have "k < length ps" using lt by simp
      from Cons_nth_drop_Suc [OF this] show ?thesis by (metis Suc_eq_plus1 list_update_code(2))
    qed
    finally show ?thesis using pack_pairs_take_Suc [OF lt] by simp
  qed
  have "pack_loop ?D (length ps) (2 * k) (2 * k) k
          = pack_loop (?D[k := push_bit 4 (?D ! (2 * k)) OR (?D ! (2 * k + 1) AND 0x0f)])
              (length ps) (2 * k + 2) (2 * k + 2) (k + 1)"
  proof -
    have a: "2 * k < length ps" using lt by simp
    have b: "2 * k + 1 < length ?D" using lt by (simp only: lD)
    have c: "k < length ?D" using lt by (simp only: lD)
    show ?thesis by (rule pack_loop_step [OF a b c])
  qed
  also have "\<dots> = pack_loop (pack_pairs (take (2 * (k + 1)) ps) @ drop (k + 1) ps)
              (length ps) (2 * (k + 1)) (2 * (k + 1)) (k + 1)"
    by (simp only: r0 r1 up) simp
  also have "\<dots> = Inr (pack_pairs ps @ drop (length ps div 2) ps)"
    using Suc.prems lt by (intro Suc.IH) auto
  finally show ?case .
qed

lemma run_lens_step: "130 < L \<Longrightarrow> run_lens L = 130 # run_lens (L - 130)"
proof -
  assume a: "130 < L"
  have e: "L - 1 - 130 = L - 130 - 1" by simp
  have "(L - 1) div 130 = Suc ((L - 1 - 130) div 130)"
    using a by (intro le_div_geq) auto
  moreover have "(L - 1) mod 130 = (L - 1 - 130) mod 130"
    using a by (intro le_mod_geq) auto
  ultimately show ?thesis by (simp add: run_lens_def e)
qed

lemma run_lens_small: "1 \<le> L \<Longrightarrow> L \<le> 130 \<Longrightarrow> run_lens L = [L]"
  by (simp add: run_lens_def)

lemma emit_run_lens:
  "1 \<le> L \<Longrightarrow>
   emit_run v (int L) dst = dst @ concat (map (\<lambda>n. [word_of_int (int n - 3 + 0x80), v]) (run_lens L))"
proof (induction L arbitrary: dst rule: less_induct)
  case (less L)
  show ?case
  proof (cases "130 < L")
    case True
    have "emit_run v (int L) dst = emit_run v (int (L - 130)) (dst @ [word_of_int (127 + 0x80), v])"
      using True by (subst emit_run.simps) (simp add: of_nat_diff)
    also have "\<dots> = (dst @ [word_of_int (127 + 0x80), v])
         @ concat (map (\<lambda>n. [word_of_int (int n - 3 + 0x80), v]) (run_lens (L - 130)))"
      using True by (intro less.IH) auto
    finally show ?thesis using True by (simp add: run_lens_step)
  next
    case False
    then show ?thesis using less.prems
      by (subst emit_run.simps) (simp add: run_lens_small)
  qed
qed

lemma copy_bytes_take:
  "src + n \<le> length data \<Longrightarrow> copy_bytes data src n dst = Inr (src + n, dst @ take n (drop src data))"
proof (induction n arbitrary: src dst)
  case 0
  show ?case by simp
next
  case (Suc n)
  then have "src < length data" by simp
  then have "take (Suc n) (drop src data) = data ! src # take n (drop (Suc src) data)"
    by (simp add: Cons_nth_drop_Suc [symmetric])
  then show ?case using Suc by simp
qed

lemma emit_copy_chunks:
  "1 \<le> L \<Longrightarrow> src + L \<le> length data \<Longrightarrow>
   emit_copy data src (int L) dst
     = Inr (src + L, dst @ concat (map (\<lambda>c. word_of_int (int (length c) - 1) # c)
                                    (chunks128 (take L (drop src data)))))"
proof (induction L arbitrary: src dst rule: less_induct)
  case (less L)
  let ?bs = "take L (drop src data)"
  have len: "length ?bs = L" using less.prems by simp
  show ?case
  proof (cases "128 < L")
    case True
    have cb: "copy_bytes data src 128 (dst @ [127]) = Inr (src + 128, (dst @ [127]) @ take 128 (drop src data))"
      using True less.prems by (intro copy_bytes_take) simp
    from cb have "emit_copy data src (int L) dst = emit_copy data (src + 128) (int (L - 128)) ((dst @ [127]) @ take 128 (drop src data))"
      using True by (subst emit_copy.simps) (simp add: of_nat_diff del: emit_copy.simps)
    also have "\<dots> = Inr (src + 128 + (L - 128), ((dst @ [127]) @ take 128 (drop src data))
          @ concat (map (\<lambda>c. word_of_int (int (length c) - 1) # c)
                                    (chunks128 (take (L - 128) (drop (src + 128) data)))))"
      using True less.prems by (intro less.IH) auto
    also have "take (L - 128) (drop (src + 128) data) = drop 128 ?bs"
      by (simp add: drop_take add.commute)
    finally show ?thesis using True less.prems len
      by (subst chunks128.simps [of ?bs]) (simp add: min_def)
  next
    case False
    have cb: "copy_bytes data src L (dst @ [word_of_int (int L - 1)]) = Inr (src + L, (dst @ [word_of_int (int L - 1)]) @ ?bs)"
      using less.prems by (intro copy_bytes_take) simp
    from cb show ?thesis using False less.prems len
      by (subst emit_copy.simps, subst chunks128.simps) (simp del: emit_copy.simps)
  qed
qed

lemma run_lens_props:
  assumes "3 \<le> L" "L mod 130 \<noteq> 1" "L mod 130 \<noteq> 2"
  shows "length (run_lens L) = (L + 129) div 130"
    and "list_all (\<lambda>n. 3 \<le> n \<and> n \<le> 130) (run_lens L)"
    and "sum_list (run_lens L) = L"
proof -
  have 1: "1 \<le> L" using assms by simp
  have d: "(L + 129) div 130 = (L - 1) div 130 + 1"
  proof -
    have "L + 129 = (L - 1) + 130" using 1 by simp
    then show ?thesis by (simp only: div_add_self2)
  qed
  show "length (run_lens L) = (L + 129) div 130"
    by (simp add: run_lens_def d)
  have m: "2 \<le> (L - 1) mod 130"
  proof (rule ccontr)
    assume "\<not> 2 \<le> (L - 1) mod 130"
    then have c: "(L - 1) mod 130 = 0 \<or> (L - 1) mod 130 = 1" by arith
    have "L = (L - 1) + 1" using 1 by simp
    then have "L mod 130 = ((L - 1) mod 130 + 1) mod 130"
      by (metis mod_add_left_eq)
    with c assms show False by auto
  qed
  have "(L - 1) mod 130 < 130" by simp
  with m show "list_all (\<lambda>n. 3 \<le> n \<and> n \<le> 130) (run_lens L)"
    by (simp add: run_lens_def list_all_iff)
  have "sum_list (run_lens L) = 130 * ((L - 1) div 130) + (L - 1) mod 130 + 1"
    by (simp add: run_lens_def sum_list_replicate)
  also have "\<dots> = L" using 1 by simp
  finally show "sum_list (run_lens L) = L" .
qed

lemma span_repeat_lens:
  "span_of (map (\<lambda>n. Repeat n v) ns) = replicate (sum_list ns) v"
  by (induction ns) (simp_all add: span_of_def replicate_add)

lemma stream_repeat_lens:
  "list_all (\<lambda>n. 3 \<le> n \<and> n \<le> 130) ns \<Longrightarrow>
   stream_of (map (\<lambda>n. Repeat n v) ns) = concat (map (\<lambda>n. [word_of_int (int n - 3 + 0x80), v]) ns)"
  by (induction ns) (simp_all add: stream_of_def of_nat_diff)

lemma chunks128_props:
  "bs \<noteq> [] \<Longrightarrow>
   concat (chunks128 bs) = bs \<and> length (chunks128 bs) = (length bs + 127) div 128
   \<and> list_all (\<lambda>c. 1 \<le> length c \<and> length c \<le> 128) (chunks128 bs)"
proof (induction bs rule: chunks128.induct)
  case (1 bs)
  show ?case
  proof (cases "128 < length bs")
    case True
    then have ne: "drop 128 bs \<noteq> []" by simp
    have d: "(length bs + 127) div 128 = Suc ((length bs - 128 + 127) div 128)"
    proof -
      have "length bs + 127 = (length bs - 128 + 127) + 128" using True by simp
      then show ?thesis by (simp only: div_add_self2)
    qed
    from "1.IH" [OF True ne] True show ?thesis
      by (subst (1 2 3) chunks128.simps) (simp add: d)
  next
    case False
    then have "(length bs + 127) div 128 = 1" using "1.prems" by (cases bs) auto
    with False "1.prems" show ?thesis
      by (subst (1 2 3) chunks128.simps) (simp add: Suc_le_eq)
  qed
qed

lemma stream_literal_chunks:
  "list_all (\<lambda>c. 1 \<le> length c \<and> length c \<le> 128) cs \<Longrightarrow>
   stream_of (map Literal cs) = concat (map (\<lambda>c. word_of_int (int (length c) - 1) # c) cs)"
  by (induction cs) (simp_all add: stream_of_def of_nat_diff)

lemma span_literal_chunks: "span_of (map Literal cs) = concat cs"
  by (induction cs) (simp_all add: span_of_def)

lemma find_run_loop_replicate:
  "c \<le> n \<Longrightarrow> n - c \<le> k \<Longrightarrow>
   find_run_loop (replicate k v) n v 0 c c = (if 3 > n then Inr (0, n) else Inr (n, 0))"
proof (induction k arbitrary: c)
  case 0
  then show ?case by simp
next
  case (Suc k)
  show ?case
  proof (cases "c < n")
    case True
    with Suc.prems have "find_run_loop (replicate k v) n v 0 (c + 1) (c + 1)
        = (if 3 > n then Inr (0, n) else Inr (n, 0))"
      by (intro Suc.IH) auto
    with True show ?thesis by simp
  next
    case False
    with Suc.prems have "c = n" by simp
    then show ?thesis by simp
  qed
qed

lemma find_run_replicate:
  assumes "0 < m" "unat len \<le> m"
  shows "find_run (replicate m v) len
     = Inr (if unat len = 0 then (0, 1) else if unat len < 3 then (0, unat len) else (unat len, 0))"
proof -
  obtain k where m: "m = Suc k" using assms(1) by (cases m) auto
  show ?thesis
  proof (cases "unat len = 0")
    case True
    have "find_run_loop (replicate k v) 0 v 0 1 1 = Inr (0, 1)"
      by (cases k) simp_all
    with True show ?thesis by (simp add: find_run_def m)
  next
    case False
    then have "find_run_loop (replicate k v) (unat len) v 0 1 1
        = (if 3 > unat len then Inr (0, unat len) else Inr (unat len, 0))"
      using assms(2) by (intro find_run_loop_replicate) (auto simp: m)
    with False show ?thesis by (simp add: find_run_def m)
  qed
qed

lemma encode_300:
  "encode_line (replicate 300 v) 300 0 0 []
     = Inr (300, stream_of [Repeat 44 v, Literal [v], Repeat 130 v, Repeat 125 v])"
proof -
  have f1: "find_run (replicate 300 v) 300 = Inr (44, 0)"
    by (subst find_run_replicate) simp_all
  have f2: "find_run (replicate 256 v) 256 = Inr (0, 1)"
    by (subst find_run_replicate) simp_all
  have f3: "find_run (replicate 255 v) 255 = Inr (255, 0)"
    by (subst find_run_replicate) simp_all
  have r1: "emit_run v 44 [] = [169, v]"
    by (subst emit_run.simps) simp
  have r3: "emit_run v 255 [169, v, 0, v] = [169, v, 0, v, 255, v, 250, v]"
    by (subst emit_run.simps, subst emit_run.simps) simp
  have c2: "emit_copy (replicate 300 v) 44 1 [169, v] = Inr (45, [169, v, 0, v])"
    by (subst emit_copy.simps) (simp add: copy_bytes_take)
  have "encode_line (replicate 300 v) 300 0 0 [] = encode_line (replicate 300 v) 300 44 44 [169, v]"
    using f1 r1 by (subst encode_line.simps) (simp del: encode_line.simps)
  also have "\<dots> = encode_line (replicate 300 v) 300 45 45 [169, v, 0, v]"
    using f2 c2 by (subst encode_line.simps) (simp del: encode_line.simps)
  also have "\<dots> = encode_line (replicate 300 v) 300 300 300 [169, v, 0, v, 255, v, 250, v]"
    using f3 r3 by (subst encode_line.simps) (simp del: encode_line.simps)
  also have "\<dots> = Inr (300, [169, v, 0, v, 255, v, 250, v])"
    by (subst encode_line.simps) simp
  finally show ?thesis by (simp add: stream_of_def)
qed

lemma stream_of_Cons: "stream_of (t # ts) = token_bytes t @ stream_of ts"
  by (simp add: stream_of_def)

lemma span_of_Cons: "span_of (t # ts) = token_span t @ span_of ts"
  by (simp add: span_of_def)

lemma store_at_Nil [simp]: "i \<le> length buf \<Longrightarrow> store_at buf i [] = buf"
  by (simp add: store_at_def)

lemma length_store_at: "i + length ps \<le> length buf \<Longrightarrow> length (store_at buf i ps) = length buf"
  by (simp add: store_at_def)

lemma take_drop_store_at:
  "i + length ps \<le> length buf \<Longrightarrow> take (length ps) (drop i (store_at buf i ps)) = ps"
  by (simp add: store_at_def)

lemma store_at_append:
  assumes "i + length ps + length qs \<le> length buf"
  shows "store_at (store_at buf i ps) (i + length ps) qs = store_at buf i (ps @ qs)"
proof -
  let ?R = "drop (i + length ps) buf"
  have l: "length (take i buf) = i" using assms by simp
  have t: "take (i + length ps) (take i buf @ ps @ ?R) = take i buf @ ps"
    using assms by (simp add: l)
  have l2: "min (length buf) i = i" using assms by simp
  have "drop (i + length ps + length qs) (take i buf @ ps @ ?R) = drop (length qs) ?R"
    by (simp add: l2)
  then have d: "drop (i + length ps + length qs) (take i buf @ ps @ ?R)
      = drop (i + length (ps @ qs)) buf"
    by (simp add: add.commute add.left_commute)
  show ?thesis unfolding store_at_def t d by simp
qed

lemma store_at_two:
  assumes "i + 2 \<le> length buf"
  shows "(buf[i := a])[Suc i := b] = store_at buf i [a, b]"
proof -
  have i: "i < length buf" "Suc i < length buf" using assms by simp_all
  have "buf[i := a] = take i buf @ a # drop (Suc i) buf"
    using i by (simp add: upd_conv_take_nth_drop)
  moreover have "(take i buf @ a # drop (Suc i) buf)[Suc i := b]
      = take i buf @ a # (drop (Suc i) buf)[0 := b]"
    using i by (simp add: list_update_append)
  moreover have "(drop (Suc i) buf)[0 := b] = b # drop (Suc (Suc i)) buf"
    using Cons_nth_drop_Suc [OF i(2)] by (metis list_update_code(2))
  ultimately show ?thesis by (simp add: store_at_def)
qed

lemma put_pair_ok:
  assumes "fits s 1"
  shows "put_pair s tv = Inr (s\<lparr>d_img := store_at (d_img s) (nat (d_dst s)) (unpack [tv]),
            d_dst := d_dst s + 2, d_x := d_x s + 2\<rparr>)"
proof -
  have b: "0 \<le> d_dst s" "d_dst s + 2 \<le> int (length (d_img s))"
    using assms by (simp_all add: fits_def)
  then have n: "nat (d_dst s) + 2 \<le> length (d_img s)" by simp
  have n1: "nat (d_dst s + 1) = Suc (nat (d_dst s))" using b by simp
  show ?thesis using b
    by (simp add: put_pair_def put_pixel_def unpack_def n1 store_at_two [OF n])
qed

lemma unpack_append: "unpack (bs @ cs) = unpack bs @ unpack cs"
  by (simp add: unpack_def)

lemma length_unpack: "length (unpack bs) = 2 * length bs"
  by (induction bs) (simp_all add: unpack_def)

lemma unpack_Cons: "unpack (b # bs) = unpack [b] @ unpack bs"
  by (simp add: unpack_def)

lemma run_loop_ok:
  "fits s n \<Longrightarrow>
   run_loop tv n s = Inr (s\<lparr>d_img := store_at (d_img s) (nat (d_dst s)) (unpack (replicate n tv)),
            d_dst := d_dst s + 2 * int n, d_x := d_x s + 2 * n\<rparr>)"
proof (induction n arbitrary: s)
  case 0
  then have "nat (d_dst s) \<le> length (d_img s)" unfolding fits_def by linarith
  then show ?case by (simp add: unpack_def)
next
  case (Suc n)
  let ?s1 = "s\<lparr>d_img := store_at (d_img s) (nat (d_dst s)) (unpack [tv]),
            d_dst := d_dst s + 2, d_x := d_x s + 2\<rparr>"
  from Suc.prems have f1: "fits s 1" by (simp add: fits_def)
  from Suc.prems have b0: "0 \<le> d_dst s" by (simp add: fits_def)
  from Suc.prems b0 have "int (nat (d_dst s) + 2 + 2 * n) \<le> int (length (d_img s))"
    by (simp add: fits_def)
  then have b1: "nat (d_dst s) + 2 + 2 * n \<le> length (d_img s)"
    by (simp only: of_nat_le_iff)
  note b = b0 b1
  then have f2: "fits ?s1 n" using Suc.prems
    by (simp add: fits_def length_store_at length_unpack)
  have st: "store_at (store_at (d_img s) (nat (d_dst s)) (unpack [tv])) (nat (d_dst s + 2))
              (unpack (replicate n tv))
            = store_at (d_img s) (nat (d_dst s)) (unpack (replicate (Suc n) tv))"
  proof -
    have "nat (d_dst s + 2) = nat (d_dst s) + length (unpack [tv])"
      using b by (simp add: length_unpack)
    moreover have "nat (d_dst s) + length (unpack [tv]) + length (unpack (replicate n tv))
         \<le> length (d_img s)" using b by (simp add: length_unpack)
    ultimately show ?thesis
      by (simp only: store_at_append) (simp add: unpack_def)
  qed
  show ?case
    using put_pair_ok [OF f1, of tv] Suc.IH [OF f2] by (simp add: st)
qed

lemma copy_loop_ok:
  "d_pos s + n \<le> length data \<Longrightarrow> fits s n \<Longrightarrow>
   copy_loop data n s
     = Inr (s\<lparr>d_pos := d_pos s + n,
              d_img := store_at (d_img s) (nat (d_dst s)) (unpack (take n (drop (d_pos s) data))),
              d_dst := d_dst s + 2 * int n, d_x := d_x s + 2 * n\<rparr>)"
proof (induction n arbitrary: s)
  case 0
  then have "nat (d_dst s) \<le> length (d_img s)" unfolding fits_def by linarith
  then show ?case by (simp add: unpack_def)
next
  case (Suc n)
  let ?tv = "data ! d_pos s"
  let ?s0 = "s\<lparr>d_pos := d_pos s + 1\<rparr>"
  let ?s1 = "?s0\<lparr>d_img := store_at (d_img ?s0) (nat (d_dst ?s0)) (unpack [?tv]),
            d_dst := d_dst ?s0 + 2, d_x := d_x ?s0 + 2\<rparr>"
  from Suc.prems have lt: "d_pos s < length data" by simp
  from Suc.prems have f1: "fits ?s0 1" by (simp add: fits_def)
  from Suc.prems have b0: "0 \<le> d_dst s" by (simp add: fits_def)
  from Suc.prems b0 have "int (nat (d_dst s) + 2 + 2 * n) \<le> int (length (d_img s))"
    by (simp add: fits_def)
  then have b1: "nat (d_dst s) + 2 + 2 * n \<le> length (d_img s)"
    by (simp only: of_nat_le_iff)
  note b = b0 b1
  then have f2: "fits ?s1 n" using Suc.prems
    by (simp add: fits_def length_store_at length_unpack)
  have p2: "d_pos ?s1 + n \<le> length data" using Suc.prems by simp
  have tk: "take (Suc n) (drop (d_pos s) data) = ?tv # take n (drop (Suc (d_pos s)) data)"
    using lt by (simp add: Cons_nth_drop_Suc [symmetric])
  have st: "store_at (store_at (d_img s) (nat (d_dst s)) (unpack [?tv])) (nat (d_dst s + 2))
              (unpack (take n (drop (Suc (d_pos s)) data)))
            = store_at (d_img s) (nat (d_dst s)) (unpack (take (Suc n) (drop (d_pos s) data)))"
  proof -
    have "nat (d_dst s + 2) = nat (d_dst s) + length (unpack [?tv])"
      using b by (simp add: length_unpack)
    moreover have "nat (d_dst s) + length (unpack [?tv])
         + length (unpack (take n (drop (Suc (d_pos s)) data))) \<le> length (d_img s)"
      using b Suc.prems by (simp add: length_unpack)
    ultimately show ?thesis
      by (simp only: store_at_append tk) (simp add: unpack_def)
  qed
  show ?case
    using lt put_pair_ok [OF f1, of ?tv] Suc.IH [OF p2 f2] by (simp add: st)
qed

lemma copy_loop_short:
  "length data < d_pos s + n \<Longrightarrow> d_pos s \<le> length data \<Longrightarrow> fits s (length data - d_pos s) \<Longrightarrow>
   copy_loop data n s = Inl Read_Overrun"
proof (induction n arbitrary: s)
  case 0
  then show ?case by simp
next
  case (Suc n)
  show ?case
  proof (cases "d_pos s < length data")
    case False
    then show ?thesis by simp
  next
    case True
    let ?tv = "data ! d_pos s"
    let ?s0 = "s\<lparr>d_pos := d_pos s + 1\<rparr>"
    let ?s1 = "?s0\<lparr>d_img := store_at (d_img ?s0) (nat (d_dst ?s0)) (unpack [?tv]),
            d_dst := d_dst ?s0 + 2, d_x := d_x ?s0 + 2\<rparr>"
    from Suc.prems True have f1: "fits ?s0 1" by (simp add: fits_def)
    from Suc.prems True have "nat (d_dst s) + 2 \<le> length (d_img s)"
      unfolding fits_def by linarith
    then have "nat (d_dst s) + length (unpack [?tv]) \<le> length (d_img s)"
      by (simp add: length_unpack)
    with Suc.prems True have f2: "fits ?s1 (length data - d_pos ?s1)"
      by (simp add: fits_def length_store_at)
    have "copy_loop data n ?s1 = Inl Read_Overrun"
      using Suc.prems True f2 by (intro Suc.IH) simp_all
    then show ?thesis using True put_pair_ok [OF f1, of ?tv] by simp
  qed
qed

lemma nb7: "(tc AND mask 7 = tc) = (\<not> bit tc 7)" for tc :: u8
proof
  assume a: "tc AND mask 7 = tc"
  have "\<not> bit (tc AND mask 7) 7" by (simp add: bit_simps)
  with a show "\<not> bit tc 7" by simp
next
  assume a: "\<not> bit tc 7"
  show "tc AND mask 7 = tc"
  proof (rule bit_word_eqI)
    fix n assume "n < LENGTH(8)"
    then have "n < 7 \<or> n = 7" by auto
    with a show "bit (tc AND mask 7) n = bit tc n" by (auto simp: bit_simps)
  qed
qed

lemma high_bit_iff: "(tc AND 0x80 \<noteq> 0) = (tc \<ge> 128)" for tc :: u8
proof -
  have "(tc AND 0x80 = 0) = (\<not> bit tc 7)"
    using and_exp_eq_0_iff_not_bit [of tc 7] by simp
  also have "\<dots> = (tc AND mask 7 = tc)" by (simp add: nb7)
  also have "\<dots> = (tc < 2 ^ 7)" by (rule mask_eq_iff_w2p) (simp add: word_size)
  finally show ?thesis by (auto simp: not_le)
qed

lemma unat_run_length: "unat ((tc AND 0x7f) + 3) = unat (tc AND 0x7f) + 3" for tc :: u8
proof -
  have "tc AND 0x7f \<le> 0x7f" by (rule word_and_le1)
  then have "unat (tc AND 0x7f) \<le> 127" by (simp add: word_le_nat_alt)
  then have "unat (tc AND 0x7f) + unat (3 :: u8) < 2 ^ LENGTH(8)" by simp
  then have "unat ((tc AND 0x7f) + 3) = unat (tc AND 0x7f) + unat (3 :: u8)"
    by (simp only: unat_add_lem)
  then show ?thesis by simp
qed

lemma unat_copy_length: "tc < 128 \<Longrightarrow> unat (tc + 1) = unat tc + 1" for tc :: u8
proof -
  assume "tc < 128"
  then have "unat tc < 128" by (simp add: word_less_nat_alt)
  then have "unat tc + unat (1 :: u8) < 2 ^ LENGTH(8)" by simp
  then have "unat (tc + 1) = unat tc + unat (1 :: u8)"
    by (simp only: unat_add_lem)
  then show ?thesis by simp
qed

lemma decode_token_repeat:
  assumes "d_pos s < length data" "data ! d_pos s \<ge> 128" "d_pos s + 1 < length data"
    and "fits s (unat (data ! d_pos s AND 0x7f) + 3)"
  shows "decode_token data width s
     = Inr (emit width s 2 (replicate (unat (data ! d_pos s AND 0x7f) + 3) (data ! (d_pos s + 1))))"
proof -
  let ?n = "unat (data ! d_pos s AND 0x7f) + 3"
  let ?s1 = "s\<lparr>d_pos := d_pos s + 1 + 1\<rparr>"
  have f: "fits ?s1 ?n" using assms(4) by (simp add: fits_def)
  have r: "run_loop (data ! (d_pos s + 1)) (unat ((data ! d_pos s AND 0x7f) + 3)) ?s1
      = Inr (?s1\<lparr>d_img := store_at (d_img ?s1) (nat (d_dst ?s1))
                    (unpack (replicate ?n (data ! (d_pos s + 1)))),
                d_dst := d_dst ?s1 + 2 * int ?n, d_x := d_x ?s1 + 2 * ?n\<rparr>)"
    using run_loop_ok [OF f] by (simp only: unat_run_length)
  from r assms(1-3) show ?thesis
    by (simp add: decode_token_def Let_def emit_def)
qed

lemma decode_token_literal:
  assumes "d_pos s < length data" "data ! d_pos s < 128"
    and "d_pos s + 1 + (unat (data ! d_pos s) + 1) \<le> length data"
    and "fits s (unat (data ! d_pos s) + 1)"
  shows "decode_token data width s
     = Inr (emit width s (unat (data ! d_pos s) + 2)
              (take (unat (data ! d_pos s) + 1) (drop (d_pos s + 1) data)))"
proof -
  let ?n = "unat (data ! d_pos s) + 1"
  let ?s0 = "s\<lparr>d_pos := d_pos s + 1\<rparr>"
  have f: "fits ?s0 ?n" using assms(4) by (simp add: fits_def)
  have p: "d_pos ?s0 + ?n \<le> length data" using assms(3) by simp
  have nl: "\<not> 128 \<le> data ! d_pos s" using assms(2) by simp
  have c: "copy_loop data (unat (data ! d_pos s + 1)) ?s0
      = Inr (?s0\<lparr>d_pos := d_pos ?s0 + ?n,
              d_img := store_at (d_img ?s0) (nat (d_dst ?s0)) (unpack (take ?n (drop (d_pos ?s0) data))),
              d_dst := d_dst ?s0 + 2 * int ?n, d_x := d_x ?s0 + 2 * ?n\<rparr>)"
    using copy_loop_ok [OF p f] by (simp only: unat_copy_length [OF assms(2)])
  have lb: "length (take ?n (drop (d_pos s + 1) data)) = ?n" using assms(3) by simp
  have e: "emit width s (unat (data ! d_pos s) + 2) (take ?n (drop (d_pos s + 1) data))
      = s\<lparr>d_pos := d_pos s + (unat (data ! d_pos s) + 2),
           d_img := store_at (d_img s) (nat (d_dst s)) (unpack (take ?n (drop (d_pos s + 1) data))),
           d_dst := (if d_x s + 2 * ?n \<ge> width then d_dst s + 2 * int ?n - 2 * int width
                     else d_dst s + 2 * int ?n),
           d_x := (if d_x s + 2 * ?n \<ge> width then 0 else d_x s + 2 * ?n)\<rparr>"
    by (simp only: emit_def lb)
  from c assms(1) nl show ?thesis
    unfolding e by (simp add: decode_token_def Let_def)
qed

lemma decode_loop_exhausts: "decode_loop data width s = Inr s' \<Longrightarrow> length data \<le> d_pos s'"
proof (induction data width s rule: decode_loop.induct)
  case (1 data width s)
  show ?case
  proof (cases "d_pos s < length data")
    case True
    with "1.prems" obtain s1 where t: "decode_token data width s = Inr s1"
      and l: "decode_loop data width s1 = Inr s'"
      by (subst (asm) decode_loop.simps) (auto split: sum.splits)
    from "1.IH" [OF True t l] show ?thesis .
  next
    case False
    with "1.prems" show ?thesis by (subst (asm) decode_loop.simps) simp
  qed
qed

lemma decode_token_literal_short:
  assumes "d_pos s < length data" "data ! d_pos s < 128"
    and "length data < d_pos s + 1 + (unat (data ! d_pos s) + 1)"
    and "fits s (length data - (d_pos s + 1))"
  shows "decode_token data width s = Inl Read_Overrun"
proof -
  let ?s0 = "s\<lparr>d_pos := d_pos s + 1\<rparr>"
  have f: "fits ?s0 (length data - d_pos ?s0)" using assms(4) by (simp add: fits_def)
  have p: "length data < d_pos ?s0 + unat (data ! d_pos s + 1)"
    using assms(3) by (simp add: unat_copy_length [OF assms(2)])
  have q: "d_pos ?s0 \<le> length data" using assms(1) by simp
  have nl: "\<not> 128 \<le> data ! d_pos s" using assms(2) by simp
  from copy_loop_short [OF p q f] assms(1) nl show ?thesis
    by (simp add: decode_token_def Let_def)
qed

lemma pack_loop_pairs:
  assumes "even (length ps)"
  shows "pack_loop ps (length ps) 0 0 0 = Inr (pack_pairs ps @ drop (length ps div 2) ps)"
proof -
  have "pack_loop (pack_pairs (take (2 * 0) ps) @ drop 0 ps) (length ps) (2 * 0) (2 * 0) 0
          = Inr (pack_pairs ps @ drop (length ps div 2) ps)"
    using assms by (intro pack_loop_inv [where m = "length ps div 2"]) simp_all
  then show ?thesis by simp
qed

lemma decode_loop_repeat:
  assumes "d_pos s < length data" "data ! d_pos s \<ge> 128" "d_pos s + 1 < length data"
    and "fits s (unat (data ! d_pos s AND 0x7f) + 3)"
  shows "decode_loop data width s
     = decode_loop data width
         (emit width s 2 (replicate (unat (data ! d_pos s AND 0x7f) + 3) (data ! (d_pos s + 1))))"
  using assms(1) decode_token_repeat [OF assms]
  by (subst decode_loop.simps) simp

lemma decode_loop_literal:
  assumes "d_pos s < length data" "data ! d_pos s < 128"
    and "d_pos s + 1 + (unat (data ! d_pos s) + 1) \<le> length data"
    and "fits s (unat (data ! d_pos s) + 1)"
  shows "decode_loop data width s
     = decode_loop data width
         (emit width s (unat (data ! d_pos s) + 2)
            (take (unat (data ! d_pos s) + 1) (drop (d_pos s + 1) data)))"
  using assms(1) decode_token_literal [OF assms]
  by (subst decode_loop.simps) simp

lemma ex_encode: "bmp2ega ex_img 262 3 = Inr ex_stream"
proof -
  have l: "length ex_img = 786" by code_simp
  have p: "pack_loop ex_img (length ex_img) 0 0 0
      = Inr (pack_pairs ex_img @ drop (length ex_img div 2) ex_img)"
    by (rule pack_loop_pairs) (simp add: l)
  have r: "encode_rows (pack_pairs ex_img @ drop (length ex_img div 2) ex_img) 131 3 0 262
      (write_header 262 3) = Inr ex_stream"
    by code_simp
  have s: "length ex_stream = 145" by code_simp
  have u: "unat (262 div 2 :: u16) = 131" "unat (3 :: u16) = 3" "unat (262 :: u16) = 262"
    by simp_all
  show ?thesis
    by (simp add: bmp2ega_def p u r s)
qed

lemma decode_token_repeat_at:
  assumes "d_pos s = p" "p < length data" "data ! p = tc" "128 \<le> tc" "p + 1 < length data"
    and "unat (tc AND 0x7f) + 3 = n" "fits s n" "data ! (p + 1) = v"
    and "emit width s 2 (replicate n v) = s'"
  shows "decode_token data width s = Inr s'"
  using decode_token_repeat [of s data width] assms by auto

lemma decode_token_literal_at:
  assumes "d_pos s = p" "p < length data" "data ! p = tc" "tc < 128" "unat tc + 1 = n"
    and "p + 1 + n \<le> length data" "fits s n" "take n (drop (p + 1) data) = bs"
    and "emit width s (n + 1) bs = s'"
  shows "decode_token data width s = Inr s'"
proof -
  have "unat tc + 2 = n + 1" using assms(5) by simp
  then show ?thesis using decode_token_literal [of s data width] assms by auto
qed

lemma decode_loop_repeat_at:
  assumes "d_pos s = p" "p < length data" "data ! p = tc" "128 \<le> tc" "p + 1 < length data"
    and "unat (tc AND 0x7f) + 3 = n" "fits s n" "data ! (p + 1) = v"
    and "emit width s 2 (replicate n v) = s'"
  shows "decode_loop data width s = decode_loop data width s'"
  using assms(1,2) decode_token_repeat_at [OF assms]
  by (subst decode_loop.simps) simp

lemma decode_loop_literal_at:
  assumes "d_pos s = p" "p < length data" "data ! p = tc" "tc < 128" "unat tc + 1 = n"
    and "p + 1 + n \<le> length data" "fits s n" "take n (drop (p + 1) data) = bs"
    and "emit width s (n + 1) bs = s'"
  shows "decode_loop data width s = decode_loop data width s'"
  using assms(1,2) decode_token_literal_at [OF assms]
  by (subst decode_loop.simps) simp

lemma ex_decode: "ega2bmp ex_stream = Inr (262, 3, ex_out)"
proof -
  let ?s0 = "\<lparr>d_pos = 4, d_img = replicate 786 0, d_dst = 524, d_x = 0\<rparr>"
  let ?s1 = "\<lparr>d_pos = 6, d_img = replicate 786 0, d_dst = 784, d_x = 260\<rparr>"
  let ?s2 = "\<lparr>d_pos = 8, d_img = replicate 785 0 @ [1], d_dst = 262, d_x = 0\<rparr>"
  let ?s3 = "\<lparr>d_pos = 10, d_img = replicate 785 0 @ [1], d_dst = 522, d_x = 260\<rparr>"
  let ?s4 = "\<lparr>d_pos = 138,
     d_img = replicate 524 0 @ [7, 15] @ concat (replicate 62 [0, 1, 0, 2]) @ [0, 1]
                @ replicate 8 0 @ [0, 1],
     d_dst = 252, d_x = 0\<rparr>"
  let ?s5 = "\<lparr>d_pos = 142,
     d_img = replicate 252 0 @ [0, 1, 0, 2, 0, 2] @ replicate 266 0 @ [7, 15]
                @ concat (replicate 62 [0, 1, 0, 2]) @ [0, 1] @ replicate 8 0 @ [0, 1],
     d_dst = 258, d_x = 6\<rparr>"
  let ?s6 = "\<lparr>d_pos = 145, d_img = ex_out, d_dst = 262, d_x = 10\<rparr>"
  have len: "length ex_stream = 145" by code_simp
  have c: "ex_stream ! 4 = 255" "ex_stream ! (4 + 1) = 0" "ex_stream ! 6 = 0" "ex_stream ! 8 = 255"
    "ex_stream ! (8 + 1) = 0" "ex_stream ! 10 = 126" "ex_stream ! 138 = 2" "ex_stream ! 142 = 1"
    by code_simp+
  have w: "unat ((255 :: u8) AND 0x7f) + 3 = 130" by simp
  have b: "take 1 (drop (6 + 1) ex_stream) = [1]"
    "take 127 (drop (10 + 1) ex_stream) = [0, 127] @ concat (replicate 62 [1, 2]) @ [1]"
    "take 3 (drop (138 + 1) ex_stream) = [1, 2, 2]" "take 2 (drop (142 + 1) ex_stream) = [2, 1]"
    by code_simp+
  have e: "emit 262 ?s0 2 (replicate 130 0) = ?s1"
    "emit 262 ?s1 (1 + 1) [1] = ?s2"
    "emit 262 ?s2 2 (replicate 130 0) = ?s3"
    "emit 262 ?s3 (127 + 1) ([0, 127] @ concat (replicate 62 [1, 2]) @ [1]) = ?s4"
    "emit 262 ?s4 (3 + 1) [1, 2, 2] = ?s5"
    "emit 262 ?s5 (2 + 1) [2, 1] = ?s6"
    by code_simp+
  have "decode_loop ex_stream 262 ?s0 = decode_loop ex_stream 262 ?s1"
    by (rule decode_loop_repeat_at [OF _ _ c(1) _ _ w _ c(2) e(1)]) (simp_all add: len fits_def)
  also have "\<dots> = decode_loop ex_stream 262 ?s2"
    by (rule decode_loop_literal_at [OF _ _ c(3) _ _ _ _ b(1) e(2)]) (simp_all add: len fits_def)
  also have "\<dots> = decode_loop ex_stream 262 ?s3"
    by (rule decode_loop_repeat_at [OF _ _ c(4) _ _ w _ c(5) e(3)]) (simp_all add: len fits_def)
  also have "\<dots> = decode_loop ex_stream 262 ?s4"
    by (rule decode_loop_literal_at [OF _ _ c(6) _ _ _ _ b(2) e(4)]) (simp_all add: len fits_def)
  also have "\<dots> = decode_loop ex_stream 262 ?s5"
    by (rule decode_loop_literal_at [OF _ _ c(7) _ _ _ _ b(3) e(5)]) (simp_all add: len fits_def)
  also have "\<dots> = decode_loop ex_stream 262 ?s6"
    by (rule decode_loop_literal_at [OF _ _ c(8) _ _ _ _ b(4) e(6)]) (simp_all add: len fits_def)
  also have "\<dots> = Inr ?s6"
    by (subst decode_loop.simps) (simp add: len)
  finally have d: "decode_loop ex_stream 262 ?s0 = Inr ?s6" .
  have h: "read_header ex_stream = (262, 3)" by code_simp
  have u: "unat (262 :: u16) = 262" "unat (3 :: u16) = 3" by simp_all
  show ?thesis
    by (simp add: ega2bmp_def len h u d)
qed

lemma ex_differs: "ex_out \<noteq> ex_img"
proof -
  have "ex_out ! 1 = 0" "ex_img ! 1 = 1" by code_simp+
  then show ?thesis by auto
qed

section \<open>Properties\<close>

subsection \<open>The run finder\<close>

text \<open>
  Claim C4, as the code has it.  The length parameter of \<open>find_run\<close> is 8 bits wide.
  For every non-empty slice of at most 255 bytes, the run finder returns the length and
  the start offset of the leftmost run of three or more equal bytes of the slice: the run
  ends where the streak breaks, or at the end of the slice when it is still open there,
  and no later, longer run is looked for; when the slice has no such run the result is
  length 0 and the length of the slice as position.
\<close>

theorem find_run_first_run:
  assumes "0 < n" "n \<le> 255" "n \<le> length buf"
  shows "\<exists>rl rp. find_run buf (word_of_nat n) = Inr (rl, rp) \<and> first_run_of buf n rl rp"
proof -
  have u: "unat (word_of_nat n :: u8) = n" using assms(2) by (simp add: unat_rem)
  obtain a t where b: "buf = a # t" using assms by (cases buf) auto
  have "\<exists>rl rp. find_run_loop (drop 1 buf) n a 0 1 1 = Inr (rl, rp) \<and> first_run_of buf n rl rp"
    using assms by (intro find_run_loop_inv [where k = "n - 1"]) (auto simp: b)
  then show ?thesis by (simp add: find_run_def b u)
qed

theorem find_run_first_run_witness:
  "0 < (9 :: nat) \<and> (9 :: nat) \<le> 255 \<and> 9 \<le> length [5, 5, 7, 7, 7, 9, 9, 9, 9 :: u8]
   \<and> find_run [5, 5, 7, 7, 7, 9, 9, 9, 9] (word_of_nat 9) = Inr (3, 2)
   \<and> first_run_of [5, 5, 7, 7, 7, 9, 9, 9, 9] 9 3 2"
proof -
  have e: "find_run [5, 5, 7, 7, 7, 9, 9, 9, 9] (word_of_nat 9) = Inr (3, 2)"
    by (simp add: find_run_def)
  have "0 < (9 :: nat)" "(9 :: nat) \<le> 255" "9 \<le> length [5, 5, 7, 7, 7, 9, 9, 9, 9 :: u8]"
    by simp_all
  from find_run_first_run [OF this] e show ?thesis by simp
qed

text \<open>
  The claim as the specification states it, for every non-empty slice, fails: for a slice
  of 300 equal bytes, passed with its length 300 as the encoder passes it, the run finder
  returns a run of 44 bytes, not the run of 300 bytes the slice consists of.
\<close>

theorem find_run_first_run_counterexample:
  "find_run (replicate 300 7) (word_of_nat 300) = Inr (44, 0)
   \<and> \<not> first_run_of (replicate 300 7) 300 44 0
   \<and> first_run_of (replicate 300 7) 300 300 0"
proof -
  have e: "find_run (replicate 300 7) (word_of_nat 300) = Inr (44, 0)"
    by code_simp
  have n: "\<not> first_run_of (replicate 300 7) 300 44 0"
    by (simp add: first_run_of_iff)
  have p: "first_run_of (replicate 300 7) 300 300 0"
    by (simp add: first_run_of_iff)
  from e n p show ?thesis by simp
qed

text \<open>
  Claim C10.  The length parameter of \<open>find_run\<close> is 8 bits wide.  When the encoder
  passes a remaining row length \<open>r\<close> above 255 (\<^verbatim>\<open>width - x\<close> of line 129), the parameter
  holds \<open>r mod 256\<close>: the search only depends on the first \<open>r mod 256\<close> bytes of the row
  and returns their first run, not that of the whole remaining row.  (With
  \<open>r mod 256 = 0\<close> it reports no run and one literal byte.)
\<close>

theorem find_run_len_mod_256:
  assumes "255 < r" "r \<le> length buf" "r \<le> length buf'"
    and "take (r mod 256) buf = take (r mod 256) buf'"
  shows "unat (word_of_nat r :: u8) = r mod 256
     \<and> find_run buf (word_of_nat r) = find_run buf' (word_of_nat r)
     \<and> (\<exists>rl rp. find_run buf (word_of_nat r) = Inr (rl, rp) \<and>
          (if r mod 256 = 0 then rl = 0 \<and> rp = 1 else first_run_of buf (r mod 256) rl rp))"
proof -
  have u: "unat (word_of_nat r :: u8) = r mod 256" by (rule unat_rem)
  have ne: "buf \<noteq> []" "buf' \<noteq> []" using assms by auto
  obtain a t where b: "buf = a # t" using ne by (cases buf) auto
  have c: "find_run buf (word_of_nat r) = find_run buf' (word_of_nat r)"
    using assms(4) by (intro find_run_cong ne) (simp add: u)
  have "\<exists>rl rp. find_run buf (word_of_nat r) = Inr (rl, rp) \<and>
          (if r mod 256 = 0 then rl = 0 \<and> rp = 1 else first_run_of buf (r mod 256) rl rp)"
  proof (cases "r mod 256 = 0")
    case True
    have "find_run_loop t 0 a 0 1 1 = find_run_loop (take (0 - 1) t) 0 a 0 1 1"
      by (simp only: find_run_loop_take)
    then show ?thesis using True by (simp add: find_run_def b u)
  next
    case False
    have "r mod 256 \<le> length buf" using assms(2) by (meson le_trans mod_less_eq_dividend)
    then have "\<exists>rl rp. find_run_loop (drop 1 buf) (r mod 256) a 0 1 1 = Inr (rl, rp)
          \<and> first_run_of buf (r mod 256) rl rp"
      using False by (intro find_run_loop_inv [where k = "r mod 256 - 1"]) (auto simp: b)
    then show ?thesis using False by (simp add: find_run_def b u)
  qed
  with u c show ?thesis by blast
qed

theorem find_run_len_mod_256_witness:
  "255 < (300 :: nat) \<and> find_run (replicate 300 7) (word_of_nat 300) = Inr (44, 0)
   \<and> find_run (replicate 44 7 @ replicate 256 9) (word_of_nat 300) = Inr (44, 0)"
proof -
  have h: "255 < (300 :: nat)" "300 \<le> length (replicate 300 (7 :: u8))"
    "300 \<le> length (replicate 44 7 @ replicate 256 (9 :: u8))" by simp_all
  have t: "take (300 mod 256) (replicate 300 (7 :: u8))
             = take (300 mod 256) (replicate 44 7 @ replicate 256 9)"
    by simp
  have e: "find_run (replicate 300 7) (word_of_nat 300) = Inr (44, 0)"
    by code_simp
  from find_run_len_mod_256 [OF h t] e show ?thesis by simp
qed

subsection \<open>Header and pixel packing\<close>

text \<open>
  Claim C8.  The encoder writes the header as two 16-bit fields, low byte first, that
  hold \<open>width - 1\<close> and \<open>height - 1\<close>; the decoder adds 1 to each field and gets the
  dimensions back, for every 16-bit width and height.  Width 320 and height 200 are
  stored as 319 and 199, the bytes 63, 1, 199, 0.
\<close>

theorem header_bias_roundtrip:
  "read_header (write_header width height @ rest) = (width, height)
   \<and> length (write_header width height) = 4
   \<and> unat (write_header width height ! 0) + 256 * unat (write_header width height ! 1)
       = unat (width - 1)
   \<and> unat (write_header width height ! 2) + 256 * unat (write_header width height ! 3)
       = unat (height - 1)
   \<and> write_header 320 200 = [63, 1, 199, 0]
   \<and> read_header [63, 1, 199, 0] = (320, 200)"
proof -
  have 1: "read_header (write_header width height @ rest) = (width, height)"
    by (simp add: read_header_def write_header_def put_int16_def get_put_int16)
  have 2: "length (write_header width height) = 4"
    by (simp add: write_header_def put_int16_def)
  have 3: "unat (write_header width height ! 0) + 256 * unat (write_header width height ! 1)
       = unat (width - 1)"
    by (simp add: write_header_def put_int16_def unat_put_int16)
  have 4: "unat (write_header width height ! 2) + 256 * unat (write_header width height ! 3)
       = unat (height - 1)"
    by (simp add: write_header_def put_int16_def unat_put_int16 numeral_2_eq_2 numeral_3_eq_3)
  have 5: "write_header 320 200 = [63, 1, 199, 0]"
    by (simp add: write_header_def put_int16_def drop_bit_eq_div)
  have 6: "read_header [63, 1, 199, 0] = (320, 200)"
    by (simp add: read_header_def get_int16_def push_bit_eq_mult)
  from 1 2 3 4 5 6 show ?thesis by blast
qed

text \<open>
  Claim C9.  For every sequence of pixels of even length with all values in 0..15, the
  packing loop of the encoder (lines 110 to 118) succeeds, and the unpacking loop of the
  decoder (\<open>copy_loop\<close>, lines 151 to 157, which stores the high nibble and then the low
  nibble of each byte through \<open>put_pair\<close>), run over the packed bytes from any state whose
  image has room for the pixels, stores exactly the original sequence at the destination
  pointer and advances the pointer by the number of pixels.  The list function \<open>unpack\<close>
  gives the same pixels.
\<close>

theorem pack_unpack_roundtrip:
  assumes "even (length ps)" "\<forall>p\<in>set ps. p < 16" "fits s (length ps div 2)"
  shows "\<exists>data s'. pack_loop ps (length ps) 0 0 0 = Inr data
           \<and> copy_loop (take (length ps div 2) data) (length ps div 2) (s\<lparr>d_pos := 0\<rparr>) = Inr s'
           \<and> d_img s' = store_at (d_img s) (nat (d_dst s)) ps
           \<and> take (length ps) (drop (nat (d_dst s)) (d_img s')) = ps
           \<and> d_dst s' = d_dst s + int (length ps)
           \<and> unpack (take (length ps div 2) data) = ps"
proof -
  let ?n = "length ps div 2"
  let ?data = "pack_pairs ps @ drop ?n ps"
  let ?s0 = "s\<lparr>d_pos := 0\<rparr>"
  have n2: "2 * ?n = length ps" using assms(1) by simp
  have p: "pack_loop ps (length ps) 0 0 0 = Inr ?data"
    using assms(1) by (rule pack_loop_pairs)
  have t: "take ?n ?data = pack_pairs ps" by (simp add: length_pack_pairs)
  have u: "unpack (pack_pairs ps) = ps" using assms(1,2) by (rule unpack_pack_pairs)
  have b: "d_pos ?s0 + ?n \<le> length (pack_pairs ps)" by (simp add: length_pack_pairs)
  have f: "fits ?s0 ?n" using assms(3) by (simp add: fits_def)
  have tk: "take ?n (drop (d_pos ?s0) (pack_pairs ps)) = pack_pairs ps"
    by (simp add: length_pack_pairs)
  let ?s' = "?s0\<lparr>d_pos := d_pos ?s0 + ?n,
              d_img := store_at (d_img ?s0) (nat (d_dst ?s0)) (unpack (pack_pairs ps)),
              d_dst := d_dst ?s0 + 2 * int ?n, d_x := d_x ?s0 + 2 * ?n\<rparr>"
  have c: "copy_loop (pack_pairs ps) ?n ?s0 = Inr ?s'"
    using copy_loop_ok [OF b f] by (simp only: tk)
  have i: "d_img ?s' = store_at (d_img s) (nat (d_dst s)) ps" by (simp add: u)
  have "0 \<le> d_dst s" "d_dst s + 2 * int ?n \<le> int (length (d_img s))"
    using assms(3) by (simp_all add: fits_def)
  then have "int (nat (d_dst s) + length ps) \<le> int (length (d_img s))"
    using n2 by simp
  then have le: "nat (d_dst s) + length ps \<le> length (d_img s)" by (simp only: of_nat_le_iff)
  have r: "take (length ps) (drop (nat (d_dst s)) (d_img ?s')) = ps"
    unfolding i using le by (rule take_drop_store_at)
  have d: "d_dst ?s' = d_dst s + int (length ps)" using n2 by simp
  have un: "unpack (take ?n ?data) = ps" unfolding t by (rule u)
  have c': "copy_loop (take ?n ?data) ?n ?s0 = Inr ?s'" using c by (simp only: t)
  show ?thesis
    by (rule exI [of _ ?data], rule exI [of _ ?s'], intro conjI; rule p c' i r d un)
qed

theorem pack_unpack_roundtrip_witness:
  "even (length [1, 15, 0, 7 :: u8]) \<and> list_all (\<lambda>p. p < 16) [1, 15, 0, 7 :: u8]
   \<and> fits \<lparr>d_pos = 5, d_img = [9, 9, 9, 9, 9, 9], d_dst = 1, d_x = 0\<rparr>
        (length [1, 15, 0, 7 :: u8] div 2)
   \<and> pack_loop [1, 15, 0, 7] (length [1, 15, 0, 7 :: u8]) 0 0 0 = Inr [0x1f, 0x07, 0, 7]
   \<and> copy_loop (take (length [1, 15, 0, 7 :: u8] div 2) [0x1f, 0x07, 0, 7])
        (length [1, 15, 0, 7 :: u8] div 2)
        (\<lparr>d_pos = 5, d_img = [9, 9, 9, 9, 9, 9], d_dst = 1, d_x = 0\<rparr>\<lparr>d_pos := 0\<rparr>)
       = Inr \<lparr>d_pos = 2, d_img = [9, 1, 15, 0, 7, 9], d_dst = 5, d_x = 4\<rparr>
   \<and> take (length [1, 15, 0, 7 :: u8]) (drop (nat 1) [9, 1, 15, 0, 7, 9 :: u8]) = [1, 15, 0, 7]"
proof -
  have h: "even (length [1, 15, 0, 7 :: u8])" "\<forall>p\<in>set [1, 15, 0, 7 :: u8]. p < 16"
    "fits \<lparr>d_pos = 5, d_img = [9, 9, 9, 9, 9, 9], d_dst = 1, d_x = 0\<rparr>
        (length [1, 15, 0, 7 :: u8] div 2)"
    by (simp_all add: fits_def)
  have e: "pack_loop [1, 15, 0, 7] (length [1, 15, 0, 7 :: u8]) 0 0 0 = Inr [0x1f, 0x07, 0, 7]"
    by code_simp
  have c: "copy_loop (take (length [1, 15, 0, 7 :: u8] div 2) [0x1f, 0x07, 0, 7])
        (length [1, 15, 0, 7 :: u8] div 2)
        (\<lparr>d_pos = 5, d_img = [9, 9, 9, 9, 9, 9], d_dst = 1, d_x = 0\<rparr>\<lparr>d_pos := 0\<rparr>)
       = Inr \<lparr>d_pos = 2, d_img = [9, 1, 15, 0, 7, 9], d_dst = 5, d_x = 4\<rparr>"
    by code_simp
  from pack_unpack_roundtrip [OF h] e c show ?thesis by (auto simp: fits_def)
qed

subsection \<open>Tokens of the encoder\<close>

text \<open>
  Claim C5, as the code has it.  A run of \<open>L \<ge> 3\<close> bytes whose length leaves a remainder
  other than 1 or 2 modulo 130 is written as \<open>\<lceil>L / 130\<rceil>\<close> repeat tokens, each for 3 to
  130 bytes, that together stand for the run.  A literal span of \<open>L \<ge> 1\<close> bytes is
  written as \<open>\<lceil>L / 128\<rceil>\<close> literal tokens, each for 1 to 128 bytes, that together stand
  for the span.  A row of 300 equal bytes is written as four tokens: a run of 44 (control
  byte 169), one literal byte (control byte 0), a run of 130 (255) and a run of 125
  (250), since each run search sees the remaining length modulo 256.
\<close>

theorem token_cap_splitting:
  "(3 \<le> L \<and> L mod 130 \<noteq> 1 \<and> L mod 130 \<noteq> 2 \<longrightarrow>
      (\<exists>ts. emit_run v (int L) dst = dst @ stream_of ts \<and> length ts = (L + 129) div 130
            \<and> list_all (\<lambda>t. is_repeat t \<and> token_ok t) ts \<and> span_of ts = replicate L v))
   \<and> (1 \<le> L \<and> src + L \<le> length data \<longrightarrow>
      (\<exists>ts. emit_copy data src (int L) dst = Inr (src + L, dst @ stream_of ts)
            \<and> length ts = (L + 127) div 128
            \<and> list_all (\<lambda>t. \<not> is_repeat t \<and> token_ok t) ts
            \<and> span_of ts = take L (drop src data)))
   \<and> encode_line (replicate 300 v) 300 0 0 []
       = Inr (300, stream_of [Repeat 44 v, Literal [v], Repeat 130 v, Repeat 125 v])"
proof (intro conjI impI)
  assume a: "3 \<le> L \<and> L mod 130 \<noteq> 1 \<and> L mod 130 \<noteq> 2"
  let ?ts = "map (\<lambda>n. Repeat n v) (run_lens L)"
  have p: "length (run_lens L) = (L + 129) div 130"
    "list_all (\<lambda>n. 3 \<le> n \<and> n \<le> 130) (run_lens L)" "sum_list (run_lens L) = L"
    using a run_lens_props [of L] by simp_all
  have "emit_run v (int L) dst = dst @ stream_of ?ts"
    using a by (simp add: emit_run_lens stream_repeat_lens [OF p(2)])
  moreover have "length ?ts = (L + 129) div 130" using p(1) by simp
  moreover have "list_all (\<lambda>t. is_repeat t \<and> token_ok t) ?ts"
    using p(2) by (simp add: list_all_iff)
  moreover have "span_of ?ts = replicate L v"
    by (simp add: span_repeat_lens p(3))
  ultimately show "\<exists>ts. emit_run v (int L) dst = dst @ stream_of ts \<and> length ts = (L + 129) div 130
            \<and> list_all (\<lambda>t. is_repeat t \<and> token_ok t) ts \<and> span_of ts = replicate L v"
    by blast
next
  assume a: "1 \<le> L \<and> src + L \<le> length data"
  let ?bs = "take L (drop src data)"
  let ?ts = "map Literal (chunks128 ?bs)"
  have ne: "?bs \<noteq> []" using a by auto
  have len: "length ?bs = L" using a by auto
  note p = chunks128_props [OF ne]
  have "emit_copy data src (int L) dst = Inr (src + L, dst @ stream_of ?ts)"
    using a p by (simp add: emit_copy_chunks stream_literal_chunks)
  moreover have "length ?ts = (L + 127) div 128" using p len by simp
  moreover have "list_all (\<lambda>t. \<not> is_repeat t \<and> token_ok t) ?ts"
    using p by (simp add: list_all_iff)
  moreover have "span_of ?ts = ?bs" using p by (simp add: span_literal_chunks)
  ultimately show "\<exists>ts. emit_copy data src (int L) dst = Inr (src + L, dst @ stream_of ts)
            \<and> length ts = (L + 127) div 128
            \<and> list_all (\<lambda>t. \<not> is_repeat t \<and> token_ok t) ts
            \<and> span_of ts = take L (drop src data)"
    by blast
next
  show "encode_line (replicate 300 v) 300 0 0 []
       = Inr (300, stream_of [Repeat 44 v, Literal [v], Repeat 130 v, Repeat 125 v])"
    by (rule encode_300)
qed

theorem token_cap_splitting_witness:
  "(\<exists>ts. emit_run 9 (int 200) [] = [] @ stream_of ts \<and> length ts = (200 + 129) div 130
         \<and> list_all (\<lambda>t. is_repeat t \<and> token_ok t) ts \<and> span_of ts = replicate 200 9)
   \<and> (\<exists>ts. emit_copy (replicate 200 3) 0 (int 200) [] = Inr (0 + 200, [] @ stream_of ts)
         \<and> length ts = (200 + 127) div 128
         \<and> list_all (\<lambda>t. \<not> is_repeat t \<and> token_ok t) ts
         \<and> span_of ts = take 200 (drop 0 (replicate 200 3)))
   \<and> emit_run 9 200 [] = [255, 9, 195, 9]"
proof -
  have h1: "3 \<le> (200 :: nat) \<and> 200 mod 130 \<noteq> (1 :: nat) \<and> 200 mod 130 \<noteq> (2 :: nat)"
    by simp
  have h2: "1 \<le> (200 :: nat) \<and> 0 + 200 \<le> length (replicate 200 (3 :: u8))"
    by simp
  have e: "emit_run 9 200 [] = [255, 9, 195, 9]"
    by code_simp
  note t = token_cap_splitting [where L = 200 and v = 9 and dst = "[]" and src = 0
      and data = "replicate 200 3"]
  note a = t [THEN conjunct1, THEN mp, OF h1]
  note b = t [THEN conjunct2, THEN conjunct1, THEN mp, OF h2]
  from a b e show ?thesis by (intro conjI)
qed

text \<open>
  The claim as the specification states it fails: the row of 300 equal bytes is not
  written as two repeat tokens with control bytes 207 and 255, and a run of 131 bytes is
  not written as two repeat tokens (its second control byte, 126, has the high bit
  clear).
\<close>

theorem token_cap_splitting_counterexample:
  "encode_line (replicate 300 7) 300 0 0 [] = Inr (300, [169, 7, 0, 7, 255, 7, 250, 7])
   \<and> encode_line (replicate 300 7) 300 0 0 [] \<noteq> Inr (300, [207, 7, 255, 7])
   \<and> emit_run 7 131 [] = [255, 7, 126, 7]"
proof -
  have e: "encode_line (replicate 300 7) 300 0 0 [] = Inr (300, [169, 7, 0, 7, 255, 7, 250, 7])"
    by code_simp
  have r: "emit_run 7 131 [] = [255, 7, 126, 7]"
    by code_simp
  from e r show ?thesis by simp
qed

text \<open>
  Claim C6, as the code has it.  The row 5,5,5,7,7,9,9,9,9 is written as a repeat token
  for 5,5,5, a literal token for 7,7 and a repeat token for 9,9,9,9; the row 5,5,7,7,
  which has no run of three, is written as one literal token for the whole row.
\<close>

theorem run_threshold_rows:
  "encode_line [5, 5, 5, 7, 7, 9, 9, 9, 9] 9 0 0 []
     = Inr (9, stream_of [Repeat 3 5, Literal [7, 7], Repeat 4 9])
   \<and> encode_line [5, 5, 7, 7] 4 0 0 [] = Inr (4, stream_of [Literal [5, 5, 7, 7]])"
proof -
  have a: "encode_line [5, 5, 5, 7, 7, 9, 9, 9, 9] 9 0 0 [] = Inr (9, [128, 5, 1, 7, 7, 129, 9])"
    by code_simp
  have b: "encode_line [5, 5, 7, 7] 4 0 0 [] = Inr (4, [3, 5, 5, 7, 7])"
    by code_simp
  from a b show ?thesis by (simp add: stream_of_def)
qed

text \<open>
  The claim as the specification states it fails: the output for 5,5,5,7,7,9,9,9,9 is
  not a sequence of literal tokens for 5,5,5,7,7 followed by the repeat token for
  9,9,9,9.
\<close>

theorem run_threshold_counterexample:
  "\<not> (\<exists>ts. list_all (\<lambda>t. \<not> is_repeat t) ts \<and> span_of ts = [5, 5, 5, 7, 7]
          \<and> encode_line [5, 5, 5, 7, 7, 9, 9, 9, 9] 9 0 0 [] = Inr (9, stream_of (ts @ [Repeat 4 9])))"
proof
  assume "\<exists>ts. list_all (\<lambda>t. \<not> is_repeat t) ts \<and> span_of ts = [5, 5, 5, 7, 7]
          \<and> encode_line [5, 5, 5, 7, 7, 9, 9, 9, 9] 9 0 0 [] = Inr (9, stream_of (ts @ [Repeat 4 9]))"
  then obtain ts where l: "list_all (\<lambda>t. \<not> is_repeat t) ts" and s: "span_of ts = [5, 5, 5, 7, 7]"
    and e: "encode_line [5, 5, 5, 7, 7, 9, 9, 9, 9] 9 0 0 [] = Inr (9, stream_of (ts @ [Repeat 4 9]))"
    by blast
  have v: "encode_line [5, 5, 5, 7, 7, 9, 9, 9, 9] 9 0 0 [] = Inr (9, [128, 5, 1, 7, 7, 129, 9])"
    by code_simp
  from e v have o: "stream_of (ts @ [Repeat 4 9]) = [128, 5, 1, 7, 7, 129, 9]" by simp
  from s obtain t ts' where c: "ts = t # ts'" by (cases ts) (auto simp: span_of_def)
  from l c obtain bs where t: "t = Literal bs" by (cases t) auto
  from s c t have "bs @ span_of ts' = [5, 5, 5, 7, 7]"
    by (simp add: span_of_Cons)
  then have "length (bs @ span_of ts') = 5" by simp
  then have "length bs \<le> 5" by simp
  then have "length bs - 1 < 128" by simp
  then have "(word_of_nat (length bs - 1) :: u8) < 128"
    by (simp add: word_less_nat_alt unat_of_nat)
  moreover from o c t have "(word_of_nat (length bs - 1) :: u8) = 128"
    by (simp add: stream_of_Cons)
  ultimately show False by simp
qed

subsection \<open>Tokens of the decoder\<close>

text \<open>
  Claim C2.  The decoder reads one control byte after the other until the stream is
  exhausted.  When the high bit of the control byte is set, it takes the next byte as the
  value and emits it \<open>(code AND 0x7F) + 3\<close> times; otherwise it emits the next \<open>code + 1\<close>
  bytes of the stream as they are.  (To emit a byte is to store its two pixels; the
  token must be complete in the stream and its pixels must lie inside the image buffer.)
  When the loop returns, the read cursor is at or past the end of the stream.
\<close>

theorem decode_loop_tokens:
  "(length data \<le> d_pos s \<longrightarrow> decode_loop data width s = Inr s)
   \<and> (d_pos s < length data \<and> data ! d_pos s AND 0x80 \<noteq> 0 \<and> d_pos s + 1 < length data
        \<and> fits s (unat (data ! d_pos s AND 0x7f) + 3) \<longrightarrow>
      decode_loop data width s
        = decode_loop data width
            (emit width s 2 (replicate (unat (data ! d_pos s AND 0x7f) + 3) (data ! (d_pos s + 1)))))
   \<and> (d_pos s < length data \<and> data ! d_pos s AND 0x80 = 0
        \<and> d_pos s + 1 + (unat (data ! d_pos s) + 1) \<le> length data
        \<and> fits s (unat (data ! d_pos s) + 1) \<longrightarrow>
      decode_loop data width s
        = decode_loop data width
            (emit width s (unat (data ! d_pos s) + 2)
               (take (unat (data ! d_pos s) + 1) (drop (d_pos s + 1) data))))
   \<and> (\<forall>s'. decode_loop data width s = Inr s' \<longrightarrow> length data \<le> d_pos s')"
proof (intro conjI impI allI)
  assume "length data \<le> d_pos s"
  then show "decode_loop data width s = Inr s"
    by (subst decode_loop.simps) simp
next
  assume a: "d_pos s < length data \<and> data ! d_pos s AND 0x80 \<noteq> 0 \<and> d_pos s + 1 < length data
        \<and> fits s (unat (data ! d_pos s AND 0x7f) + 3)"
  then have h: "data ! d_pos s \<ge> 128" by (simp add: high_bit_iff)
  from a h have "decode_token data width s
      = Inr (emit width s 2 (replicate (unat (data ! d_pos s AND 0x7f) + 3) (data ! (d_pos s + 1))))"
    by (intro decode_token_repeat) simp_all
  with a show "decode_loop data width s
        = decode_loop data width
            (emit width s 2 (replicate (unat (data ! d_pos s AND 0x7f) + 3) (data ! (d_pos s + 1))))"
    by (subst decode_loop.simps) simp
next
  assume a: "d_pos s < length data \<and> data ! d_pos s AND 0x80 = 0
        \<and> d_pos s + 1 + (unat (data ! d_pos s) + 1) \<le> length data
        \<and> fits s (unat (data ! d_pos s) + 1)"
  then have h: "data ! d_pos s < 128" using high_bit_iff [of "data ! d_pos s"] by simp
  from a h have "decode_token data width s
      = Inr (emit width s (unat (data ! d_pos s) + 2)
               (take (unat (data ! d_pos s) + 1) (drop (d_pos s + 1) data)))"
    by (intro decode_token_literal) simp_all
  with a show "decode_loop data width s
        = decode_loop data width
            (emit width s (unat (data ! d_pos s) + 2)
               (take (unat (data ! d_pos s) + 1) (drop (d_pos s + 1) data)))"
    by (subst decode_loop.simps) simp
next
  fix s' assume "decode_loop data width s = Inr s'"
  then show "length data \<le> d_pos s'" by (rule decode_loop_exhausts)
qed

theorem decode_loop_tokens_witness:
  "decode_loop [7, 0, 1, 0, 0x81, 0xAB, 0x03, 0x12, 0x34, 0x56, 0x78] 8
      \<lparr>d_pos = 4, d_img = replicate 16 0, d_dst = 8, d_x = 0\<rparr>
    = Inr \<lparr>d_pos = 11, d_img = [1, 2, 3, 4, 5, 6, 7, 8, 10, 11, 10, 11, 10, 11, 10, 11],
            d_dst = - 8, d_x = 0\<rparr>"
proof -
  let ?data = "[7, 0, 1, 0, 0x81, 0xAB, 0x03, 0x12, 0x34, 0x56, 0x78] :: u8 list"
  let ?s0 = "\<lparr>d_pos = 4, d_img = replicate 16 0, d_dst = 8, d_x = 0\<rparr>"
  let ?s1 = "\<lparr>d_pos = 6, d_img = replicate 8 0 @ [10, 11, 10, 11, 10, 11, 10, 11], d_dst = 0, d_x = 0\<rparr>"
  let ?s2 = "\<lparr>d_pos = 11, d_img = [1, 2, 3, 4, 5, 6, 7, 8, 10, 11, 10, 11, 10, 11, 10, 11],
            d_dst = - 8, d_x = 0\<rparr>"
  have w: "(0x81 :: u8) AND 0x80 \<noteq> 0" "(0x81 :: u8) AND 0x7f = 1" "(3 :: u8) AND 0x80 = 0"
    by simp_all
  have e1: "emit 8 ?s0 2 (replicate 4 0xAB) = ?s1"
    by code_simp
  have e2: "emit 8 ?s1 5 [0x12, 0x34, 0x56, 0x78] = ?s2"
    by code_simp
  have h1: "d_pos ?s0 < length ?data \<and> ?data ! d_pos ?s0 AND 0x80 \<noteq> 0 \<and> d_pos ?s0 + 1 < length ?data
        \<and> fits ?s0 (unat (?data ! d_pos ?s0 AND 0x7f) + 3)"
    by (simp add: fits_def w)
  have h2: "d_pos ?s1 < length ?data \<and> ?data ! d_pos ?s1 AND 0x80 = 0
        \<and> d_pos ?s1 + 1 + (unat (?data ! d_pos ?s1) + 1) \<le> length ?data
        \<and> fits ?s1 (unat (?data ! d_pos ?s1) + 1)"
    by (simp add: fits_def w)
  have h3: "length ?data \<le> d_pos ?s2" by simp
  note t0 = decode_loop_tokens [where data = ?data and width = 8 and s = ?s0]
  note t1 = decode_loop_tokens [where data = ?data and width = 8 and s = ?s1]
  note t2 = decode_loop_tokens [where data = ?data and width = 8 and s = ?s2]
  have "decode_loop ?data 8 ?s0
      = decode_loop ?data 8 (emit 8 ?s0 2 (replicate (unat (?data ! d_pos ?s0 AND 0x7f) + 3) (?data ! (d_pos ?s0 + 1))))"
    using t0 [THEN conjunct2, THEN conjunct1, THEN mp, OF h1] .
  also have "\<dots> = decode_loop ?data 8 ?s1"
    using e1 by (simp add: w)
  also have "\<dots> = decode_loop ?data 8 (emit 8 ?s1 (unat (?data ! d_pos ?s1) + 2)
               (take (unat (?data ! d_pos ?s1) + 1) (drop (d_pos ?s1 + 1) ?data)))"
    using t1 [THEN conjunct2, THEN conjunct2, THEN conjunct1, THEN mp, OF h2] .
  also have "\<dots> = decode_loop ?data 8 ?s2"
    using e2 by simp
  also have "\<dots> = Inr ?s2"
    using t2 [THEN conjunct1, THEN mp, OF h3] .
  finally show ?thesis .
qed

text \<open>
  Claim C3, as the code has it.  The decoder validates nothing and has no error results.
  A token whose length exceeds what remains of the current scanline is expanded in full
  (as long as it is complete in the stream and its pixels lie inside the image buffer):
  the pixels run on past the end of the scanline, then the column is set to 0 and the
  write pointer is moved back by twice the width from where the token ended.  A stream
  that ends after a repeat control byte, or inside the bytes of a literal token, makes
  the decoder read past the end of the buffer that holds the file.
\<close>

theorem decode_token_unchecked:
  "(d_pos s < length data \<and> data ! d_pos s < 128
      \<and> d_pos s + 1 + (unat (data ! d_pos s) + 1) \<le> length data
      \<and> fits s (unat (data ! d_pos s) + 1)
      \<and> width < d_x s + 2 * (unat (data ! d_pos s) + 1) \<longrightarrow>
    decode_token data width s
      = Inr (s\<lparr>d_pos := d_pos s + (unat (data ! d_pos s) + 2),
               d_img := store_at (d_img s) (nat (d_dst s))
                          (unpack (take (unat (data ! d_pos s) + 1) (drop (d_pos s + 1) data))),
               d_dst := d_dst s + 2 * int (unat (data ! d_pos s) + 1) - 2 * int width,
               d_x := 0\<rparr>))
   \<and> (d_pos s < length data \<and> 128 \<le> data ! d_pos s \<and> d_pos s + 1 < length data
      \<and> fits s (unat (data ! d_pos s AND 0x7f) + 3)
      \<and> width < d_x s + 2 * (unat (data ! d_pos s AND 0x7f) + 3) \<longrightarrow>
    decode_token data width s
      = Inr (s\<lparr>d_pos := d_pos s + 2,
               d_img := store_at (d_img s) (nat (d_dst s))
                          (unpack (replicate (unat (data ! d_pos s AND 0x7f) + 3) (data ! (d_pos s + 1)))),
               d_dst := d_dst s + 2 * int (unat (data ! d_pos s AND 0x7f) + 3) - 2 * int width,
               d_x := 0\<rparr>))
   \<and> (d_pos s + 1 = length data \<and> 128 \<le> data ! d_pos s \<longrightarrow>
        decode_token data width s = Inl Read_Overrun)
   \<and> (d_pos s < length data \<and> data ! d_pos s < 128
      \<and> length data < d_pos s + 1 + (unat (data ! d_pos s) + 1)
      \<and> fits s (length data - (d_pos s + 1)) \<longrightarrow>
        decode_token data width s = Inl Read_Overrun)"
proof (intro conjI impI)
  let ?n = "unat (data ! d_pos s) + 1"
  assume a: "d_pos s < length data \<and> data ! d_pos s < 128
      \<and> d_pos s + 1 + ?n \<le> length data \<and> fits s ?n \<and> width < d_x s + 2 * ?n"
  then have lb: "length (take ?n (drop (d_pos s + 1) data)) = ?n" by (auto simp: min_def)
  from a have "decode_token data width s
      = Inr (emit width s (unat (data ! d_pos s) + 2) (take ?n (drop (d_pos s + 1) data)))"
    by (intro decode_token_literal) simp_all
  also have "emit width s (unat (data ! d_pos s) + 2) (take ?n (drop (d_pos s + 1) data))
      = s\<lparr>d_pos := d_pos s + (unat (data ! d_pos s) + 2),
               d_img := store_at (d_img s) (nat (d_dst s))
                          (unpack (take ?n (drop (d_pos s + 1) data))),
               d_dst := d_dst s + 2 * int ?n - 2 * int width,
               d_x := 0\<rparr>"
    using a by (simp only: emit_def lb) simp
  finally show "decode_token data width s
      = Inr (s\<lparr>d_pos := d_pos s + (unat (data ! d_pos s) + 2),
               d_img := store_at (d_img s) (nat (d_dst s))
                          (unpack (take ?n (drop (d_pos s + 1) data))),
               d_dst := d_dst s + 2 * int ?n - 2 * int width,
               d_x := 0\<rparr>)" .
next
  let ?n = "unat (data ! d_pos s AND 0x7f) + 3"
  assume a: "d_pos s < length data \<and> 128 \<le> data ! d_pos s \<and> d_pos s + 1 < length data
      \<and> fits s ?n \<and> width < d_x s + 2 * ?n"
  then have "decode_token data width s
      = Inr (emit width s 2 (replicate ?n (data ! (d_pos s + 1))))"
    by (intro decode_token_repeat) simp_all
  also have "emit width s 2 (replicate ?n (data ! (d_pos s + 1)))
      = s\<lparr>d_pos := d_pos s + 2,
               d_img := store_at (d_img s) (nat (d_dst s))
                          (unpack (replicate ?n (data ! (d_pos s + 1)))),
               d_dst := d_dst s + 2 * int ?n - 2 * int width,
               d_x := 0\<rparr>"
    using a by (simp add: emit_def)
  finally show "decode_token data width s
      = Inr (s\<lparr>d_pos := d_pos s + 2,
               d_img := store_at (d_img s) (nat (d_dst s))
                          (unpack (replicate ?n (data ! (d_pos s + 1)))),
               d_dst := d_dst s + 2 * int ?n - 2 * int width,
               d_x := 0\<rparr>)" .
next
  assume "d_pos s + 1 = length data \<and> 128 \<le> data ! d_pos s"
  then have "d_pos s < length data" "128 \<le> data ! d_pos s" "\<not> d_pos s + 1 < length data"
    by auto
  then show "decode_token data width s = Inl Read_Overrun"
    by (simp add: decode_token_def Let_def)
next
  assume "d_pos s < length data \<and> data ! d_pos s < 128
      \<and> length data < d_pos s + 1 + (unat (data ! d_pos s) + 1)
      \<and> fits s (length data - (d_pos s + 1))"
  then show "decode_token data width s = Inl Read_Overrun"
    by (intro decode_token_literal_short) simp_all
qed

theorem decode_token_unchecked_witness:
  "decode_token [3, 0, 1, 0, 1, 0x12, 0x34, 2, 0x56, 0x78, 0x9a] 4
      \<lparr>d_pos = 7, d_img = [0, 0, 0, 0, 1, 2, 3, 4], d_dst = 0, d_x = 0\<rparr>
     = Inr \<lparr>d_pos = 11, d_img = [5, 6, 7, 8, 9, 10, 3, 4], d_dst = - 2, d_x = 0\<rparr>
   \<and> decode_token [7, 0, 1, 0, 0x03, 0x12, 0x34, 0x56, 0x78, 0x82, 0xAB] 8
      \<lparr>d_pos = 9, d_img = replicate 8 0 @ [1, 2, 3, 4, 5, 6, 7, 8], d_dst = 0, d_x = 0\<rparr>
     = Inr \<lparr>d_pos = 11, d_img = [10, 11, 10, 11, 10, 11, 10, 11, 10, 11, 3, 4, 5, 6, 7, 8],
             d_dst = - 6, d_x = 0\<rparr>
   \<and> decode_token [3, 0, 0, 0, 0x80] 4 \<lparr>d_pos = 4, d_img = [0, 0, 0, 0], d_dst = 0, d_x = 0\<rparr>
     = Inl Read_Overrun
   \<and> decode_token [3, 0, 0, 0, 0x02, 0x12] 4 \<lparr>d_pos = 4, d_img = [0, 0, 0, 0], d_dst = 0, d_x = 0\<rparr>
     = Inl Read_Overrun"
proof -
  let ?d1 = "[3, 0, 1, 0, 1, 0x12, 0x34, 2, 0x56, 0x78, 0x9a] :: u8 list"
  let ?s1 = "\<lparr>d_pos = 7, d_img = [0, 0, 0, 0, 1, 2, 3, 4], d_dst = 0, d_x = 0\<rparr>"
  let ?d2 = "[7, 0, 1, 0, 0x03, 0x12, 0x34, 0x56, 0x78, 0x82, 0xAB] :: u8 list"
  let ?s2 = "\<lparr>d_pos = 9, d_img = replicate 8 0 @ [1, 2, 3, 4, 5, 6, 7, 8], d_dst = 0, d_x = 0\<rparr>"
  let ?d3 = "[3, 0, 0, 0, 0x80] :: u8 list"
  let ?d4 = "[3, 0, 0, 0, 0x02, 0x12] :: u8 list"
  let ?s3 = "\<lparr>d_pos = 4, d_img = [0, 0, 0, 0], d_dst = 0, d_x = 0\<rparr>"
  have w: "(0x82 :: u8) AND 0x7f = 2" by simp
  have h1: "d_pos ?s1 < length ?d1 \<and> ?d1 ! d_pos ?s1 < 128
      \<and> d_pos ?s1 + 1 + (unat (?d1 ! d_pos ?s1) + 1) \<le> length ?d1
      \<and> fits ?s1 (unat (?d1 ! d_pos ?s1) + 1)
      \<and> 4 < d_x ?s1 + 2 * (unat (?d1 ! d_pos ?s1) + 1)"
    by (simp add: fits_def)
  have h2: "d_pos ?s2 < length ?d2 \<and> 128 \<le> ?d2 ! d_pos ?s2 \<and> d_pos ?s2 + 1 < length ?d2
      \<and> fits ?s2 (unat (?d2 ! d_pos ?s2 AND 0x7f) + 3)
      \<and> 8 < d_x ?s2 + 2 * (unat (?d2 ! d_pos ?s2 AND 0x7f) + 3)"
    by (simp add: fits_def w)
  have h3: "d_pos ?s3 + 1 = length ?d3 \<and> 128 \<le> ?d3 ! d_pos ?s3"
    by simp
  have h4: "d_pos ?s3 < length ?d4 \<and> ?d4 ! d_pos ?s3 < 128
      \<and> length ?d4 < d_pos ?s3 + 1 + (unat (?d4 ! d_pos ?s3) + 1)
      \<and> fits ?s3 (length ?d4 - (d_pos ?s3 + 1))"
    by (simp add: fits_def)
  note t1 = decode_token_unchecked [where data = ?d1 and width = 4 and s = ?s1,
      THEN conjunct1, THEN mp, OF h1]
  note t2 = decode_token_unchecked [where data = ?d2 and width = 8 and s = ?s2,
      THEN conjunct2, THEN conjunct1, THEN mp, OF h2]
  note t3 = decode_token_unchecked [where data = ?d3 and width = 4 and s = ?s3,
      THEN conjunct2, THEN conjunct2, THEN conjunct1, THEN mp, OF h3]
  note t4 = decode_token_unchecked [where data = ?d4 and width = 4 and s = ?s3,
      THEN conjunct2, THEN conjunct2, THEN conjunct2, THEN mp, OF h4]
  have e1: "store_at [0, 0, 0, 0, 1, 2, 3, 4] 0 (unpack [0x56, 0x78, 0x9a]) = [5, 6, 7, 8, 9, 10, 3, 4]"
    by code_simp
  have e2: "store_at (replicate 8 0 @ [1, 2, 3, 4, 5, 6, 7, 8]) 0 (unpack (replicate 5 0xAB))
      = [10, 11, 10, 11, 10, 11, 10, 11, 10, 11, 3, 4, 5, 6, 7, 8]"
    by code_simp
  from t1 e1 have r1: "decode_token ?d1 4 ?s1
     = Inr \<lparr>d_pos = 11, d_img = [5, 6, 7, 8, 9, 10, 3, 4], d_dst = - 2, d_x = 0\<rparr>"
    by simp
  from t2 e2 have r2: "decode_token ?d2 8 ?s2
     = Inr \<lparr>d_pos = 11, d_img = [10, 11, 10, 11, 10, 11, 10, 11, 10, 11, 3, 4, 5, 6, 7, 8],
             d_dst = - 6, d_x = 0\<rparr>"
    by (simp add: w)
  from r1 r2 t3 t4 show ?thesis by (intro conjI)
qed

text \<open>
  The claim as the specification states it fails: in an image 4 pixels wide (2 bytes to
  the scanline), a literal token of 3 bytes in the second scanline of the stream is not
  refused as corrupt; the decoder returns an image in which the token has overwritten
  two pixels of the scanline decoded before.
\<close>

theorem decode_token_unchecked_counterexample:
  "ega2bmp [3, 0, 1, 0, 1, 0x12, 0x34, 2, 0x56, 0x78, 0x9a] = Inr (4, 2, [5, 6, 7, 8, 9, 10, 3, 4])"
  by code_simp

subsection \<open>Encoding and decoding an image\<close>

text \<open>
  Claim C1 fails on the code.  For the image \<open>ex_img\<close> (262 by 3 pixels, every pixel in
  0..15, its second scanline 262 pixels of value 0) the encoder writes \<open>ex_stream\<close>, in
  which the run of 131 bytes of that scanline is the bytes 255, 0, 126, 0: after the
  token for 130 bytes one byte is left, and \<^verbatim>\<open>(rlen - 3) + 0x80\<close> is 126 for it, a control
  byte without the repeat flag.  The decoder returns for \<open>ex_stream\<close> the image \<open>ex_out\<close>,
  which is not \<open>ex_img\<close>.
\<close>

theorem roundtrip_fails_run_131:
  "bmp2ega ex_img 262 3 = Inr ex_stream
   \<and> ega2bmp ex_stream = Inr (262, 3, ex_out)
   \<and> ex_out \<noteq> ex_img"
  using ex_encode ex_decode ex_differs by simp

text \<open>
  Claim C7 fails on the code, by the same defect.  The three scanlines of \<open>ex_img\<close>,
  packed and encoded one by one, give the bytes 255, 0, 0, 1, the bytes 255, 0, 126, 0 and
  a literal of 128 bytes followed by a literal of 3 bytes; \<open>ex_stream\<close> is the header
  followed by these three encodings.  In decoding it, the control byte 126 of the second
  encoding is reached at column 260 of 262 and expanded as a literal token of 127 bytes:
  254 pixels that cross the end of the scanline and take the first 126 bytes of the next
  encoding for pixel data.  The first and the last scanline of the decoded image are not
  what was encoded.
\<close>

theorem rows_token_crosses_scanline:
  "encode_line (replicate 130 0 @ [1]) 131 0 0 [] = Inr (131, [255, 0, 0, 1])
   \<and> encode_line (replicate 131 0) 131 0 0 [] = Inr (131, [255, 0, 126, 0])
   \<and> encode_line (concat (replicate 65 [1, 2]) @ [1]) 131 0 0 []
       = Inr (131, [127] @ concat (replicate 64 [1, 2]) @ [2, 1, 2, 1])
   \<and> ex_stream = write_header 262 3 @ [255, 0, 0, 1] @ [255, 0, 126, 0]
                     @ [127] @ concat (replicate 64 [1, 2]) @ [2, 1, 2, 1]
   \<and> decode_token ex_stream 262
         \<lparr>d_pos = 10, d_img = replicate 785 0 @ [1], d_dst = 522, d_x = 260\<rparr>
       = Inr \<lparr>d_pos = 138,
               d_img = replicate 524 0 @ [7, 15] @ concat (replicate 62 [0, 1, 0, 2]) @ [0, 1]
                         @ replicate 8 0 @ [0, 1],
               d_dst = 252, d_x = 0\<rparr>
   \<and> ega2bmp ex_stream = Inr (262, 3, ex_out)
   \<and> take 262 ex_out \<noteq> unpack (concat (replicate 65 [1, 2]) @ [1])
   \<and> drop 524 ex_out \<noteq> unpack (replicate 130 0 @ [1])"
proof -
  have a: "encode_line (replicate 130 0 @ [1]) 131 0 0 [] = Inr (131, [255, 0, 0, 1])"
    by code_simp
  have b: "encode_line (replicate 131 0) 131 0 0 [] = Inr (131, [255, 0, 126, 0])"
    by code_simp
  have c: "encode_line (concat (replicate 65 [1, 2]) @ [1]) 131 0 0 []
       = Inr (131, [127] @ concat (replicate 64 [1, 2]) @ [2, 1, 2, 1])"
    by code_simp
  have d: "ex_stream = write_header 262 3 @ [255, 0, 0, 1] @ [255, 0, 126, 0]
                     @ [127] @ concat (replicate 64 [1, 2]) @ [2, 1, 2, 1]"
    by code_simp
  have len: "length ex_stream = 145" by code_simp
  have t: "take 127 (drop (10 + 1) ex_stream) = [0, 127] @ concat (replicate 62 [1, 2]) @ [1]"
    by code_simp
  have k: "ex_stream ! 10 = 126" by code_simp
  have e: "emit 262 \<lparr>d_pos = 10, d_img = replicate 785 0 @ [1], d_dst = 522, d_x = 260\<rparr> (127 + 1)
       ([0, 127] @ concat (replicate 62 [1, 2]) @ [1])
     = \<lparr>d_pos = 138,
               d_img = replicate 524 0 @ [7, 15] @ concat (replicate 62 [0, 1, 0, 2]) @ [0, 1]
                         @ replicate 8 0 @ [0, 1],
               d_dst = 252, d_x = 0\<rparr>"
    by code_simp
  have f: "decode_token ex_stream 262
         \<lparr>d_pos = 10, d_img = replicate 785 0 @ [1], d_dst = 522, d_x = 260\<rparr>
       = Inr \<lparr>d_pos = 138,
               d_img = replicate 524 0 @ [7, 15] @ concat (replicate 62 [0, 1, 0, 2]) @ [0, 1]
                         @ replicate 8 0 @ [0, 1],
               d_dst = 252, d_x = 0\<rparr>"
    by (rule decode_token_literal_at [OF _ _ k _ _ _ _ t e]) (simp_all add: len fits_def)
  have g: "take 262 ex_out \<noteq> unpack (concat (replicate 65 [1, 2]) @ [1])"
  proof -
    have "take 262 ex_out ! 1 = 0" "unpack (concat (replicate 65 [1, 2]) @ [1]) ! 1 = 1"
      by code_simp+
    then show ?thesis by (metis zero_neq_one)
  qed
  have h: "drop 524 ex_out \<noteq> unpack (replicate 130 0 @ [1])"
  proof
    assume eq: "drop 524 ex_out = unpack (replicate 130 0 @ [1])"
    have x: "drop 524 ex_out ! 0 = 7" and y: "unpack (replicate 130 0 @ [1]) ! 0 = 0"
      by code_simp+
    have "(7 :: u8) = drop 524 ex_out ! 0" using x by (rule sym)
    also have "\<dots> = unpack (replicate 130 0 @ [1]) ! 0" by (simp only: eq)
    also have "\<dots> = 0" by (rule y)
    finally show False by simp
  qed
  from a b c d f ex_decode g h show ?thesis by (intro conjI)
qed

end
